theory Spec2Isabelle
  imports Main "HOL-Library.Char_ord" "HOL-Library.List_Lexorder" "HOL-Library.Sublist"
    "HOL-Library.AList"
begin

section \<open>Values and dictionaries\<close>

text \<open>
  The program handles the values that \<open>json.loads\<close> produces. A Python \<open>str\<close> is modelled
  as a \<open>string\<close> whose characters are code points below 256; a \<open>float\<close> is carried as the
  lexeme it was read from (no arithmetic on floats is modelled). A \<open>dict\<close> is an association
  list in insertion order; every dictionary the program builds has distinct keys.
\<close>

datatype json =
    JNull
  | JBool bool
  | JInt int
  | JFloat string
  | JStr string
  | JList "json list"
  | JDict "(string \<times> json) list"

type_synonym dict = "(string \<times> json) list"

text \<open>\<open>d.get(k)\<close>: the value stored under \<open>k\<close>, if any.\<close>

definition dict_get :: "dict \<Rightarrow> string \<Rightarrow> json option" where
  "dict_get d k = map_of d k"

text \<open>\<open>d[k] = v\<close>: an existing key keeps its position, a new key goes to the end.\<close>

definition dict_set :: "dict \<Rightarrow> string \<Rightarrow> json \<Rightarrow> dict" where
  "dict_set d k v = AList.update k v d"

text \<open>\<open>d.update(m)\<close>: the entries of \<open>m\<close> are stored into \<open>d\<close> one after the other.\<close>

definition dict_update :: "dict \<Rightarrow> dict \<Rightarrow> dict" where
  "dict_update d m = foldl (\<lambda>acc (k, v). dict_set acc k v) d m"

text \<open>\<open>dict(items)\<close> on a list of pairs.\<close>

definition dict_of_items :: "(string \<times> json) list \<Rightarrow> dict" where
  "dict_of_items items = dict_update [] items"

definition keys :: "dict \<Rightarrow> string list" where
  "keys d = map fst d"

section \<open>String operations of the standard library\<close>

text \<open>\<open>str.isspace\<close> on one character, for code points below 256.\<close>

definition py_isspace :: "char \<Rightarrow> bool" where
  "py_isspace c \<longleftrightarrow> c \<in> set [CHR 0x09, CHR 0x0A, CHR 0x0B, CHR 0x0C, CHR 0x0D,
       CHR 0x1C, CHR 0x1D, CHR 0x1E, CHR 0x1F, CHR 0x20, CHR 0x85, CHR 0xA0]"

text \<open>\<open>s.strip()\<close>\<close>

definition strip :: "string \<Rightarrow> string" where
  "strip s = rev (dropWhile py_isspace (rev (dropWhile py_isspace s)))"

text \<open>\<open>s.replace(old, new)\<close>: the non-overlapping occurrences of \<open>old\<close>, leftmost first.\<close>

function replace :: "string \<Rightarrow> string \<Rightarrow> string \<Rightarrow> string" where
  "replace s old new =
     (if old = [] then new @ concat (map (\<lambda>c. c # new) s)
      else if prefix old s then new @ replace (drop (length old) s) old new
      else (case s of [] \<Rightarrow> [] | c # cs \<Rightarrow> c # replace cs old new))"
  by pat_completeness auto
termination
  by (relation "measure (\<lambda>(s, old, new). length s)") (auto simp: prefix_def)

declare replace.simps [simp del]

text \<open>\<open>sep.join(parts)\<close>\<close>

fun join :: "string \<Rightarrow> string list \<Rightarrow> string" where
  "join sep [] = []"
| "join sep [x] = x"
| "join sep (x # y # ys) = x @ sep @ join sep (y # ys)"

section \<open>CSV output\<close>

text \<open>
  \<open>flatten_json_to_csv(data, parent_key, sep)\<close>. The loop over \<open>data.items()\<close> is
  \<open>flatten_loop\<close>; \<open>str_of\<close> stands for the built-in \<open>str\<close> applied to list elements.
\<close>

fun flatten_json_to_csv :: "(json \<Rightarrow> string) \<Rightarrow> dict \<Rightarrow> string \<Rightarrow> string \<Rightarrow> dict"
  and flatten_loop :: "(json \<Rightarrow> string) \<Rightarrow> dict \<Rightarrow> string \<Rightarrow> string \<Rightarrow> (string \<times> json) list"
where
  "flatten_json_to_csv str_of data parent_key sep =
     dict_of_items (flatten_loop str_of data parent_key sep)"
| "flatten_loop str_of [] parent_key sep = []"
| "flatten_loop str_of ((k, v) # rest) parent_key sep =
     (let new_key = (if parent_key \<noteq> [] then parent_key @ sep @ k else k) in
      (case v of
         JDict d \<Rightarrow> flatten_json_to_csv str_of d new_key sep
       | JList xs \<Rightarrow> [(new_key, JStr (join ''; '' (map str_of xs)))]
       | _ \<Rightarrow> [(new_key, v)])
      @ flatten_loop str_of rest parent_key sep)"


text \<open>
  \<open>save_to_csv(data, output_file)\<close>: what is handed to \<open>csv.DictWriter\<close>, the header
  (\<open>fieldnames\<close>) and one dictionary per row, or nothing when there is no data.
\<close>

record csv_table =
  header :: "string list"
  rows :: "dict list"

definition save_to_csv :: "(json \<Rightarrow> string) \<Rightarrow> dict list \<Rightarrow> csv_table option" where
  "save_to_csv str_of data =
     (if data = [] then None
      else
        let flattened_data = map (\<lambda>item. flatten_json_to_csv str_of item [] ''_'') data in
        if flattened_data = [] then None
        else
          let all_columns = fold (\<lambda>item acc. acc \<union> set (keys item)) flattened_data {};
              columns = sorted_list_of_set all_columns
          in Some \<lparr>header = columns,
                   rows = map (\<lambda>item. map (\<lambda>col. (col, case dict_get item col of
                                                          Some v \<Rightarrow> v | None \<Rightarrow> JStr [])) columns)
                            flattened_data\<rparr>)"

section \<open>A decoder for JSON text\<close>

text \<open>
  The program calls \<open>json.loads\<close> of the standard library. The functions that call it take
  the decoder as the parameter \<open>loads\<close> (\<open>None\<close> stands for \<open>JSONDecodeError\<close>).
  \<open>json_loads\<close> below is a decoder for the JSON grammar as the library reads it, over
  characters below 256: a \<open>\u\<close> escape of a larger code point is rejected here.
\<close>

datatype token = TLBrace | TRBrace | TLBracket | TRBracket | TComma | TColon | TAtom json

definition is_json_ws :: "char \<Rightarrow> bool" where
  "is_json_ws c \<longleftrightarrow> c \<in> set [CHR 0x20, CHR 0x09, CHR 0x0A, CHR 0x0D]"

definition is_digit :: "char \<Rightarrow> bool" where
  "is_digit c \<longleftrightarrow> CHR ''0'' \<le> c \<and> c \<le> CHR ''9''"

definition digit_val :: "char \<Rightarrow> nat" where
  "digit_val c = of_char c - of_char CHR ''0''"

definition hex_val :: "char \<Rightarrow> nat option" where
  "hex_val c =
     (if is_digit c then Some (digit_val c)
      else if CHR ''a'' \<le> c \<and> c \<le> CHR ''f'' then Some (of_char c - of_char CHR ''a'' + 10)
      else if CHR ''A'' \<le> c \<and> c \<le> CHR ''F'' then Some (of_char c - of_char CHR ''A'' + 10)
      else None)"

definition decode_hex4 :: "string \<Rightarrow> char option" where
  "decode_hex4 s =
     (case map hex_val s of
        [Some a, Some b, Some c, Some d] \<Rightarrow>
          (let n = ((a * 16 + b) * 16 + c) * 16 + d in
           if n < 256 then Some (char_of n) else None)
      | _ \<Rightarrow> None)"

definition escape_char :: "char \<Rightarrow> char option" where
  "escape_char e =
     (if e = CHR 0x22 then Some (CHR 0x22)
      else if e = CHR 0x5C then Some (CHR 0x5C)
      else if e = CHR ''/'' then Some (CHR ''/'')
      else if e = CHR ''b'' then Some (CHR 0x08)
      else if e = CHR ''f'' then Some (CHR 0x0C)
      else if e = CHR ''n'' then Some (CHR 0x0A)
      else if e = CHR ''r'' then Some (CHR 0x0D)
      else if e = CHR ''t'' then Some (CHR 0x09)
      else None)"

text \<open>The body of a string literal, after its opening quote: the decoded text and the rest.\<close>

fun scan_string :: "string \<Rightarrow> (string \<times> string) option" where
  "scan_string [] = None"
| "scan_string (c # cs) =
     (if c = CHR 0x22 then Some ([], cs)
      else if c = CHR 0x5C then
        (case cs of
           [] \<Rightarrow> None
         | e # cs' \<Rightarrow>
             if e = CHR ''u'' then
               (case decode_hex4 (take 4 cs') of
                  None \<Rightarrow> None
                | Some ch \<Rightarrow> map_option (apfst ((#) ch)) (scan_string (drop 4 cs')))
             else
               (case escape_char e of
                  None \<Rightarrow> None
                | Some ch \<Rightarrow> map_option (apfst ((#) ch)) (scan_string cs')))
      else if (of_char c :: nat) < 0x20 then None
      else map_option (apfst ((#) c)) (scan_string cs))"

definition nat_of_digits :: "string \<Rightarrow> nat" where
  "nat_of_digits ds = foldl (\<lambda>n c. 10 * n + digit_val c) 0 ds"

text \<open>
  A number, as the library's pattern \<open>(-?(?:0|[1-9][0-9]*))(\.[0-9]+)?([eE][-+]?[0-9]+)?\<close>
  matches it at the start of the text: an \<open>int\<close> when there is neither fraction nor
  exponent, else a \<open>float\<close>.
\<close>

definition sign_part :: "string \<Rightarrow> string" where
  "sign_part s = (case s of [] \<Rightarrow> [] | c # r \<Rightarrow> if c = CHR ''-'' then [c] else [])"

definition int_part :: "string \<Rightarrow> string" where
  "int_part s =
     (case s of
        [] \<Rightarrow> []
      | c # r \<Rightarrow> if c = CHR ''0'' then [c] else takeWhile is_digit s)"

definition frac_part :: "string \<Rightarrow> string" where
  "frac_part s =
     (case s of
        c # d # r \<Rightarrow> if c = CHR ''.'' \<and> is_digit d then c # takeWhile is_digit (d # r) else []
      | _ \<Rightarrow> [])"

definition exp_part :: "string \<Rightarrow> string" where
  "exp_part s =
     (case s of
        c # d # r \<Rightarrow>
          if c = CHR ''e'' \<or> c = CHR ''E'' then
            (if is_digit d then c # takeWhile is_digit (d # r)
             else if d = CHR ''-'' \<or> d = CHR ''+'' then
               (case r of
                  [] \<Rightarrow> []
                | x # r' \<Rightarrow> if is_digit x then c # d # takeWhile is_digit r else [])
             else [])
          else []
      | _ \<Rightarrow> [])"

definition scan_number :: "string \<Rightarrow> (json \<times> string) option" where
  "scan_number s =
     (let sign = sign_part s;
          s1 = drop (length sign) s;
          ipart = int_part s1;
          s2 = drop (length ipart) s1;
          frac = frac_part s2;
          s3 = drop (length frac) s2;
          expo = exp_part s3;
          s4 = drop (length expo) s3
      in if ipart = [] then None
         else if frac = [] \<and> expo = [] then
           Some (JInt ((if sign = [] then 1 else - 1) * int (nat_of_digits ipart)), s4)
         else Some (JFloat (sign @ ipart @ frac @ expo), s4))"

definition punctuation :: "char \<Rightarrow> token option" where
  "punctuation c =
     (if c = CHR ''{'' then Some TLBrace
      else if c = CHR ''}'' then Some TRBrace
      else if c = CHR ''['' then Some TLBracket
      else if c = CHR '']'' then Some TRBracket
      else if c = CHR '','' then Some TComma
      else if c = CHR '':'' then Some TColon
      else None)"

text \<open>The literals tried before a number, and those tried after it, each with its length.\<close>

definition keyword :: "string \<Rightarrow> (json \<times> nat) option" where
  "keyword s =
     (if prefix ''null'' s then Some (JNull, 4)
      else if prefix ''true'' s then Some (JBool True, 4)
      else if prefix ''false'' s then Some (JBool False, 5)
      else None)"

definition float_word :: "string \<Rightarrow> (json \<times> nat) option" where
  "float_word s =
     (if prefix ''NaN'' s then Some (JFloat ''NaN'', 3)
      else if prefix ''Infinity'' s then Some (JFloat ''Infinity'', 8)
      else if prefix ''-Infinity'' s then Some (JFloat ''-Infinity'', 9)
      else None)"

text \<open>
  The token that starts at the first character of the text, in the order in which the
  library's scanner tries them, and the rest of the text.
\<close>

definition next_token :: "string \<Rightarrow> (token \<times> string) option" where
  "next_token s =
     (case s of
        [] \<Rightarrow> None
      | c # cs \<Rightarrow>
          if c = CHR 0x22 then map_option (apfst (\<lambda>x. TAtom (JStr x))) (scan_string cs)
          else
            (case punctuation c of
               Some t \<Rightarrow> Some (t, cs)
             | None \<Rightarrow>
                 (case keyword s of
                    Some (v, n) \<Rightarrow> Some (TAtom v, drop n s)
                  | None \<Rightarrow>
                      (case scan_number s of
                         Some (v, rest) \<Rightarrow> Some (TAtom v, rest)
                       | None \<Rightarrow>
                           (case float_word s of
                              Some (v, n) \<Rightarrow> Some (TAtom v, drop n s)
                            | None \<Rightarrow> None)))))"

lemma scan_string_length: "scan_string s = Some (x, rest) \<Longrightarrow> length rest < Suc (length s)"
proof (induction s arbitrary: x rule: scan_string.induct)
  case 1
  then show ?case by simp
next
  case (2 c cs)
  then show ?case
    by (fastforce simp: less_Suc_eq_le split: if_splits list.splits option.splits)
qed

lemma int_part_Nil: "int_part [] = []"
  by (simp add: int_part_def)

lemma scan_number_length: "scan_number s = Some (v, rest) \<Longrightarrow> length rest < length s"
proof -
  assume a: "scan_number s = Some (v, rest)"
  define s1 where "s1 = drop (length (sign_part s)) s"
  define s2 where "s2 = drop (length (int_part s1)) s1"
  define s3 where "s3 = drop (length (frac_part s2)) s2"
  define s4 where "s4 = drop (length (exp_part s3)) s3"
  from a have ip: "int_part s1 \<noteq> []" and r: "rest = s4"
    unfolding scan_number_def Let_def s1_def s2_def s3_def s4_def
    by (simp_all split: if_splits)
  from ip have "s1 \<noteq> []" using int_part_Nil by auto
  with ip have "length s2 < length s1" by (simp add: s2_def)
  moreover have "length s1 \<le> length s" by (simp add: s1_def)
  moreover have "length s4 \<le> length s2" by (simp add: s3_def s4_def)
  ultimately show ?thesis using r by simp
qed

lemma keyword_pos: "keyword s = Some (v, n) \<Longrightarrow> 0 < n"
  by (simp add: keyword_def split: if_splits)

lemma float_word_pos: "float_word s = Some (v, n) \<Longrightarrow> 0 < n"
  by (simp add: float_word_def split: if_splits)

lemma next_token_string:
  "next_token (c # cs) = Some (t, rest) \<Longrightarrow> c = CHR 0x22 \<Longrightarrow>
     \<exists>x. scan_string cs = Some (x, rest) \<and> t = TAtom (JStr x)"
  by (auto simp add: next_token_def)

lemma next_token_punctuation:
  "next_token (c # cs) = Some (t, rest) \<Longrightarrow> c \<noteq> CHR 0x22 \<Longrightarrow> punctuation c = Some t' \<Longrightarrow>
     rest = cs \<and> t = t'"
  by (simp add: next_token_def)

lemma next_token_keyword:
  "next_token (c # cs) = Some (t, rest) \<Longrightarrow> c \<noteq> CHR 0x22 \<Longrightarrow> punctuation c = None \<Longrightarrow>
     keyword (c # cs) = Some (v, n) \<Longrightarrow> rest = drop n (c # cs) \<and> t = TAtom v"
  by (simp add: next_token_def)

lemma next_token_number:
  "next_token (c # cs) = Some (t, rest) \<Longrightarrow> c \<noteq> CHR 0x22 \<Longrightarrow> punctuation c = None \<Longrightarrow>
     keyword (c # cs) = None \<Longrightarrow> scan_number (c # cs) = Some (v, r) \<Longrightarrow> rest = r \<and> t = TAtom v"
  by (simp add: next_token_def)

lemma next_token_float_word:
  "next_token (c # cs) = Some (t, rest) \<Longrightarrow> c \<noteq> CHR 0x22 \<Longrightarrow> punctuation c = None \<Longrightarrow>
     keyword (c # cs) = None \<Longrightarrow> scan_number (c # cs) = None \<Longrightarrow>
     \<exists>v n. float_word (c # cs) = Some (v, n) \<and> rest = drop n (c # cs) \<and> t = TAtom v"
  by (auto simp add: next_token_def split: option.splits)

lemma next_token_length: "next_token s = Some (t, rest) \<Longrightarrow> length rest < length s"
proof (cases s)
  case Nil
  assume "next_token s = Some (t, rest)"
  with Nil show ?thesis by (simp add: next_token_def)
next
  case (Cons c cs)
  assume "next_token s = Some (t, rest)"
  then have a: "next_token (c # cs) = Some (t, rest)" using Cons by simp
  have drops: "\<And>n. 0 < n \<Longrightarrow> length (drop n (c # cs)) < length s" using Cons by simp
  show ?thesis
  proof (cases "c = CHR 0x22")
    case True
    from next_token_string[OF a True] obtain x where "scan_string cs = Some (x, rest)" by blast
    from scan_string_length[OF this] Cons show ?thesis by simp
  next
    case nq: False
    show ?thesis
    proof (cases "punctuation c")
      case (Some t')
      from next_token_punctuation[OF a nq Some] Cons show ?thesis by simp
    next
      case np: None
      show ?thesis
      proof (cases "keyword (c # cs)")
        case (Some p)
        obtain v n where p: "p = (v, n)" by (cases p)
        from next_token_keyword[OF a nq np Some[unfolded p]] keyword_pos[OF Some[unfolded p]] drops
        show ?thesis by simp
      next
        case nk: None
        show ?thesis
        proof (cases "scan_number (c # cs)")
          case (Some p)
          obtain v r where p: "p = (v, r)" by (cases p)
          from next_token_number[OF a nq np nk Some[unfolded p]]
            scan_number_length[OF Some[unfolded p]] Cons
          show ?thesis by simp
        next
          case None
          from next_token_float_word[OF a nq np nk None] obtain v n
            where "float_word (c # cs) = Some (v, n)" "rest = drop n (c # cs)" by blast
          with float_word_pos drops show ?thesis by blast
        qed
      qed
    qed
  qed
qed

text \<open>The tokens of a text, with the whitespace between them skipped.\<close>

function lex :: "string \<Rightarrow> token list option" where
  "lex s =
     (let s' = dropWhile is_json_ws s in
      if s' = [] then Some []
      else (case next_token s' of
              None \<Rightarrow> None
            | Some (t, rest) \<Rightarrow> map_option ((#) t) (lex rest)))"
  by pat_completeness auto
termination
proof (relation "measure length")
  show "wf (measure length)" by simp
next
  fix s s' :: string and x2 :: "token \<times> string" and t :: token and rest :: string
  assume a: "s' = dropWhile is_json_ws s" "next_token s' = Some x2" "(t, rest) = x2"
  then have "length rest < length s'" using next_token_length[of s' t rest] by simp
  moreover have "length s' \<le> length s" using a(1) by (simp add: length_dropWhile_le)
  ultimately show "(rest, s) \<in> measure length" by simp
qed

declare lex.simps [simp del]

text \<open>
  Values from tokens. The first argument bounds the number of nested calls; \<open>json_loads\<close>
  starts with twice the number of tokens plus one, and each call uses up a token before
  it calls again.
\<close>

fun parse_value :: "nat \<Rightarrow> token list \<Rightarrow> (json \<times> token list) option"
  and parse_items :: "nat \<Rightarrow> json list \<Rightarrow> token list \<Rightarrow> (json \<times> token list) option"
  and parse_members :: "nat \<Rightarrow> dict \<Rightarrow> token list \<Rightarrow> (json \<times> token list) option"
where
  "parse_value 0 ts = None"
| "parse_value (Suc n) [] = None"
| "parse_value (Suc n) (TAtom v # ts) = Some (v, ts)"
| "parse_value (Suc n) (TLBracket # TRBracket # ts) = Some (JList [], ts)"
| "parse_value (Suc n) (TLBracket # ts) = parse_items n [] ts"
| "parse_value (Suc n) (TLBrace # TRBrace # ts) = Some (JDict [], ts)"
| "parse_value (Suc n) (TLBrace # ts) = parse_members n [] ts"
| "parse_value (Suc n) (t # ts) = None"
| "parse_items 0 acc ts = None"
| "parse_items (Suc n) acc ts =
     (case parse_value n ts of
        None \<Rightarrow> None
      | Some (v, ts') \<Rightarrow>
          (case ts' of
             TComma # ts'' \<Rightarrow> parse_items n (acc @ [v]) ts''
           | TRBracket # ts'' \<Rightarrow> Some (JList (acc @ [v]), ts'')
           | _ \<Rightarrow> None))"
| "parse_members 0 acc ts = None"
| "parse_members (Suc n) acc ts =
     (case ts of
        TAtom (JStr k) # TColon # ts' \<Rightarrow>
          (case parse_value n ts' of
             None \<Rightarrow> None
           | Some (v, ts'') \<Rightarrow>
               (case ts'' of
                  TComma # r \<Rightarrow> parse_members n (dict_set acc k v) r
                | TRBrace # r \<Rightarrow> Some (JDict (dict_set acc k v), r)
                | _ \<Rightarrow> None))
      | _ \<Rightarrow> None)"

definition json_loads :: "string \<Rightarrow> json option" where
  "json_loads s =
     (case lex s of
        None \<Rightarrow> None
      | Some ts \<Rightarrow>
          (case parse_value (2 * length ts + 1) ts of
             Some (v, []) \<Rightarrow> Some v
           | _ \<Rightarrow> None))"


section \<open>Processing one document\<close>

text \<open>\<open>os.path.basename\<close>: what follows the last slash.\<close>

definition basename :: "string \<Rightarrow> string" where
  "basename p = rev (takeWhile (\<lambda>c. c \<noteq> CHR ''/'') (rev p))"

text \<open>
  \<open>re.search(r'\{.*\}', s, re.DOTALL)\<close>: the match starts at the first opening brace and,
  being greedy, ends at the last closing brace after it.
\<close>

definition re_search_braces :: "string \<Rightarrow> string option" where
  "re_search_braces s =
     (case dropWhile (\<lambda>c. c \<noteq> CHR ''{'') s of
        [] \<Rightarrow> None
      | c # r \<Rightarrow>
          if CHR ''}'' \<in> set r
          then Some (c # rev (dropWhile (\<lambda>x. x \<noteq> CHR ''}'') (rev r)))
          else None)"

text \<open>
  The ways \<open>process_file\<close> gives up on a document, one for each notice it prints before
  it returns \<open>None\<close>; \<open>Uncaught\<close> stands for an exception that leaves the function.
\<close>

datatype error =
    FileTooLarge
  | UploadFailed
  | PdfOpenFailed
  | EmptyPdf
  | JsonDecodeFailed
  | NoJsonFound
  | InvalidDataType
  | ProcessingError
  | Uncaught

text \<open>The calls \<open>process_file\<close> makes to the file system and to the model service.\<close>

datatype action = GetSize | Upload | Generate | Delete | OpenPdf

text \<open>What \<open>model.generate_content\<close> does: it raises, or returns a response whose
  \<open>text\<close> raises, or returns a response with a text.\<close>

datatype reply = GenerateRaises | TextRaises | Text string

text \<open>
  What the outside world answers for one document: the size of the file (\<open>None\<close> when
  \<open>os.path.getsize\<close> raises), whether the upload and the deletion of the staged file return
  normally, the model's reply to the prompt the code builds, and the text of each page
  of the PDF (\<open>None\<close> when \<open>pymupdf.open\<close> raises, and for a page whose \<open>get_text\<close>
  raises).
\<close>

record doc_world =
  getsize :: "int option"
  upload_ok :: bool
  generate_content :: reply
  delete_ok :: bool
  pdf_pages :: "string option list option"

definition GEMINI_MAX_FILE_SIZE_MB :: int where
  "GEMINI_MAX_FILE_SIZE_MB = 50"

definition GEMINI_MAX_FILE_SIZE_BYTES :: int where
  "GEMINI_MAX_FILE_SIZE_BYTES = GEMINI_MAX_FILE_SIZE_MB * 1024 * 1024"

text \<open>The loop \<open>for page in doc: pdf_text_content += page.get_text()\<close>.\<close>

fun page_texts :: "string \<Rightarrow> string option list \<Rightarrow> string option" where
  "page_texts acc [] = Some acc"
| "page_texts acc (None # ps) = None"
| "page_texts acc (Some t # ps) = page_texts (acc @ t) ps"

text \<open>
  Lines 179 to 213 of \<open>process_file\<close>: the response text is cleaned, decoded (directly, or
  else from its first brace to its last), a list is replaced by its first element or by
  the empty dictionary, and anything but a dictionary is refused.
\<close>

definition clean_response :: "string \<Rightarrow> string" where
  "clean_response text = replace (replace (strip text) ''```json'' []) ''```'' []"

definition decode_response :: "(string \<Rightarrow> json option) \<Rightarrow> string \<Rightarrow> error + json" where
  "decode_response loads cleaned_response_text =
     (case loads cleaned_response_text of
        Some extracted_data \<Rightarrow> Inr extracted_data
      | None \<Rightarrow>
          (case re_search_braces cleaned_response_text of
             Some json_match \<Rightarrow>
               (case loads json_match of
                  Some extracted_data \<Rightarrow> Inr extracted_data
                | None \<Rightarrow> Inl JsonDecodeFailed)
           | None \<Rightarrow> Inl NoJsonFound))"

definition unwrap_list :: "json \<Rightarrow> json" where
  "unwrap_list extracted_data =
     (case extracted_data of
        JList xs \<Rightarrow> (case xs of [] \<Rightarrow> JDict [] | x # _ \<Rightarrow> x)
      | _ \<Rightarrow> extracted_data)"

definition parse_response :: "(string \<Rightarrow> json option) \<Rightarrow> string \<Rightarrow> error + dict" where
  "parse_response loads text =
     (case decode_response loads (clean_response text) of
        Inl e \<Rightarrow> Inl e
      | Inr extracted_data \<Rightarrow>
          (case unwrap_list extracted_data of
             JDict d \<Rightarrow> Inr d
           | _ \<Rightarrow> Inl InvalidDataType))"

text \<open>The end of \<open>process_file\<close>: \<open>response.text\<close> is read, parsed, and the metadata stored.\<close>

definition finish :: "(string \<Rightarrow> json option) \<Rightarrow> reply \<Rightarrow> dict \<Rightarrow> error + dict" where
  "finish loads response metadata =
     (case response of
        Text text \<Rightarrow>
          (case parse_response loads text of
             Inl e \<Rightarrow> Inl e
           | Inr extracted_data \<Rightarrow> Inr (dict_update extracted_data metadata))
      | _ \<Rightarrow> Inl ProcessingError)"

text \<open>
  \<open>process_file(file_path, model, extraction_schema, text_mode)\<close>: the result (\<open>Inl\<close> where
  the code returns \<open>None\<close>) and the calls made, in order. The prompt is built without
  failing from a schema that is a dictionary and is only passed to the model, whose reply
  is given by the world, so it is left out.
\<close>

definition process_file ::
  "(string \<Rightarrow> json option) \<Rightarrow> doc_world \<Rightarrow> string \<Rightarrow> bool \<Rightarrow> (error + dict) \<times> action list" where
  "process_file loads w file_path text_mode =
     (let filename = basename file_path in
      if \<not> text_mode then
        (case getsize w of
           None \<Rightarrow> (Inl ProcessingError, [GetSize])
         | Some file_size \<Rightarrow>
             if file_size > GEMINI_MAX_FILE_SIZE_BYTES then (Inl FileTooLarge, [GetSize])
             else if \<not> upload_ok w then (Inl UploadFailed, [GetSize, Upload])
             else if generate_content w = GenerateRaises
               then (Inl UploadFailed, [GetSize, Upload, Generate])
             else if \<not> delete_ok w
               then (Inl UploadFailed, [GetSize, Upload, Generate, Delete])
             else (finish loads (generate_content w)
                     [(''filename'', JStr filename), (''processing_mode'', JStr ''file'')],
                   [GetSize, Upload, Generate, Delete]))
      else
        (case pdf_pages w of
           None \<Rightarrow> (Inl PdfOpenFailed, [OpenPdf])
         | Some pages \<Rightarrow>
             (let page_count = length pages in
              case page_texts [] pages of
                None \<Rightarrow> (Inl ProcessingError, [OpenPdf])
              | Some pdf_text_content \<Rightarrow>
                  if strip pdf_text_content = [] then (Inl EmptyPdf, [OpenPdf])
                  else (finish loads (generate_content w)
                          [(''filename'', JStr filename), (''processing_mode'', JStr ''text'')],
                        [OpenPdf, Generate]))))"

text \<open>
  \<open>process_pdf(file_path, model)\<close> of the prototype \<open>ceeol_main.py\<close>, which works in text
  mode only. The pages are read outside of any handler. An item assignment on a decoded
  value that is not a dictionary raises and is caught by the function's last handler.
\<close>

definition process_pdf ::
  "(string \<Rightarrow> json option) \<Rightarrow> doc_world \<Rightarrow> string \<Rightarrow> (error + dict) \<times> action list" where
  "process_pdf loads w file_path =
     (let filename = basename file_path in
      case pdf_pages w of
        None \<Rightarrow> (Inl PdfOpenFailed, [OpenPdf])
      | Some pages \<Rightarrow>
          (let page_count = length pages in
           case page_texts [] pages of
             None \<Rightarrow> (Inl Uncaught, [OpenPdf])
           | Some pdf_text_content \<Rightarrow>
               if strip pdf_text_content = [] then (Inl EmptyPdf, [OpenPdf])
               else
                 (case generate_content w of
                    Text text \<Rightarrow>
                      (case loads (clean_response text) of
                         None \<Rightarrow> Inl JsonDecodeFailed
                       | Some (JDict extracted_data) \<Rightarrow>
                           Inr (dict_set (dict_set extracted_data ''filename'' (JStr filename))
                                  ''page_count'' (JInt (int page_count)))
                       | Some _ \<Rightarrow> Inl ProcessingError)
                  | _ \<Rightarrow> Inl ProcessingError,
                  [OpenPdf, Generate])))"


section \<open>The run\<close>

text \<open>\<open>str.lower\<close> on one character below 256, and \<open>f.lower().endswith(".pdf")\<close>.\<close>

definition lower_char :: "char \<Rightarrow> char" where
  "lower_char c =
     (let n = (of_char c :: nat) in
      if (0x41 \<le> n \<and> n \<le> 0x5A) \<or> (0xC0 \<le> n \<and> n \<le> 0xDE \<and> n \<noteq> 0xD7)
      then char_of (n + 32) else c)"

definition is_pdf :: "string \<Rightarrow> bool" where
  "is_pdf f \<longleftrightarrow> suffix ''.pdf'' (map lower_char f)"

text \<open>\<open>os.path.join(a, b)\<close> for POSIX paths.\<close>

definition os_path_join :: "string \<Rightarrow> string \<Rightarrow> string" where
  "os_path_join a b =
     (if prefix ''/'' b then b
      else if a = [] \<or> suffix ''/'' a then a @ b
      else a @ ''/'' @ b)"

text \<open>
  The file a relative path names when it is opened: the operating system resolves it
  against the current working directory.
\<close>

definition opened_path :: "string \<Rightarrow> string \<Rightarrow> string" where
  "opened_path cwd p = os_path_join cwd p"

text \<open>
  Truth of a value in a condition. A float is zero when all the digits of its mantissa
  are zeros (a lexeme that only rounds to zero is not modelled).
\<close>

definition float_nonzero :: "string \<Rightarrow> bool" where
  "float_nonzero lexeme \<longleftrightarrow>
     (\<exists>c \<in> set (takeWhile (\<lambda>c. c \<noteq> CHR ''e'' \<and> c \<noteq> CHR ''E'') lexeme).
        c \<noteq> CHR ''0'' \<and> c \<noteq> CHR ''.'' \<and> c \<noteq> CHR ''-'')"

fun truthy :: "json \<Rightarrow> bool" where
  "truthy JNull = False"
| "truthy (JBool b) = b"
| "truthy (JInt i) = (i \<noteq> 0)"
| "truthy (JFloat lexeme) = float_nonzero lexeme"
| "truthy (JStr s) = (s \<noteq> [])"
| "truthy (JList xs) = (xs \<noteq> [])"
| "truthy (JDict d) = (d \<noteq> [])"

text \<open>The command line, as far as the run depends on it.\<close>

record args =
  input_dir :: string
  recursive :: bool
  text_mode :: bool
  csv_format :: bool

text \<open>
  What the outside world answers during a run: whether \<open>configure_gemini\<close> succeeds,
  whether the input directory exists, the content of the schema file (\<open>None\<close> when it
  cannot be read), the names \<open>os.listdir\<close> returns for the input directory, the triples
  \<open>os.walk\<close> yields for it, the current working directory, the world of each document
  by the file that is opened, and whether the output file can be written.
\<close>

record run_world =
  configured :: bool
  isdir :: bool
  getcwd :: string
  schema_file :: "string option"
  listdir :: "string list"
  walk :: "(string \<times> string list \<times> string list) list"
  doc :: "string \<Rightarrow> doc_world"
  writable :: bool

text \<open>What the run prints, as far as it tells the outcomes apart.\<close>

datatype message =
    Banner
  | ConfigurationError
  | InputDirNotFound
  | SchemaError
  | NoFieldsError
  | NoPdfFiles
  | Found nat
  | Notice error
  | Success string
  | Failed string
  | NoDataExtracted
  | Saved
  | SaveError
  | Traceback

datatype output_file = JsonFile "dict list" | CsvFile csv_table

text \<open>
  A call of \<open>process_file\<close>: the path handed to it, the file this path names when it is
  opened, and the calls made for it.
\<close>

type_synonym call = "string \<times> string \<times> action list"

record run =
  console :: "message list"
  processed :: "call list"
  written :: "output_file option"

text \<open>\<open>load_extraction_schema\<close>: \<open>None\<close> (after an error message) when the file cannot be
  read or decoded.\<close>

definition load_extraction_schema :: "(string \<Rightarrow> json option) \<Rightarrow> run_world \<Rightarrow> json option" where
  "load_extraction_schema loads w =
     (case schema_file w of None \<Rightarrow> None | Some content \<Rightarrow> loads content)"

text \<open>Lines 354 to 362 of \<open>main\<close>: the paths of the documents.\<close>

definition pdf_files :: "args \<Rightarrow> run_world \<Rightarrow> string list" where
  "pdf_files a w =
     (if recursive a
      then concat (map (\<lambda>(root, dirs, files). map (os_path_join root) (filter is_pdf files))
                    (walk w))
      else filter is_pdf (listdir w))"

text \<open>
  The loop over the documents: what is printed, the results collected, and the calls of
  \<open>process_file\<close>. The path is handed to \<open>process_file\<close> as it stands in \<open>pdf_files\<close>;
  the file it opens is the one the path names from the current working directory.
\<close>

fun process_all ::
  "(string \<Rightarrow> json option) \<Rightarrow> args \<Rightarrow> run_world \<Rightarrow> string list \<Rightarrow>
     message list \<times> dict list \<times> call list" where
  "process_all loads a w [] = ([], [], [])"
| "process_all loads a w (file_path # rest) =
     (let filename = basename file_path;
          file = opened_path (getcwd w) file_path;
          (result, actions) = process_file loads (doc w file) file_path (text_mode a);
          (msgs, all_results, calls) = process_all loads a w rest
      in case result of
           Inl e \<Rightarrow>
             (Notice e # Failed filename # msgs, all_results, (file_path, file, actions) # calls)
         | Inr result \<Rightarrow>
             if result \<noteq> []
             then (Success filename # msgs, result # all_results,
                   (file_path, file, actions) # calls)
             else (Failed filename # msgs, all_results, (file_path, file, actions) # calls))"

text \<open>\<open>main()\<close>, after the command line has been read.\<close>

definition main :: "(string \<Rightarrow> json option) \<Rightarrow> (json \<Rightarrow> string) \<Rightarrow> args \<Rightarrow> run_world \<Rightarrow> run" where
  "main loads str_of a w =
     (if \<not> configured w then
        \<lparr>console = [Banner, ConfigurationError], processed = [], written = None\<rparr>
      else if \<not> isdir w then
        \<lparr>console = [Banner, InputDirNotFound], processed = [], written = None\<rparr>
      else
        (case load_extraction_schema loads w of
           None \<Rightarrow> \<lparr>console = [Banner, SchemaError], processed = [], written = None\<rparr>
         | Some extraction_schema \<Rightarrow>
             if \<not> truthy extraction_schema then
               \<lparr>console = [Banner], processed = [], written = None\<rparr>
             else
               (case extraction_schema of
                  JDict schema \<Rightarrow>
                    if \<not> (case dict_get schema ''fields'' of None \<Rightarrow> False | Some v \<Rightarrow> truthy v)
                    then \<lparr>console = [Banner, NoFieldsError], processed = [], written = None\<rparr>
                    else
                      (let files = pdf_files a w in
                       if files = [] then
                         \<lparr>console = [Banner, NoPdfFiles], processed = [], written = None\<rparr>
                       else
                         (let (msgs, all_results, calls) = process_all loads a w files;
                              out = [Banner, Found (length files)] @ msgs
                          in if all_results = [] then
                               \<lparr>console = out @ [NoDataExtracted], processed = calls,
                                written = None\<rparr>
                             else if \<not> writable w then
                               \<lparr>console = out @ [SaveError], processed = calls, written = None\<rparr>
                             else if csv_format a then
                               \<lparr>console = out @ [Saved], processed = calls,
                                written = map_option CsvFile (save_to_csv str_of all_results)\<rparr>
                             else
                               \<lparr>console = out @ [Saved], processed = calls,
                                written = Some (JsonFile all_results)\<rparr>))
                | _ \<Rightarrow> \<lparr>console = [Banner, Traceback], processed = [], written = None\<rparr>)))"


section \<open>Notions used in the statements\<close>

text \<open>A value that is neither a dictionary nor a list, and a dictionary of such values.\<close>

fun is_scalar :: "json \<Rightarrow> bool" where
  "is_scalar (JDict d) = False"
| "is_scalar (JList xs) = False"
| "is_scalar v = True"

definition is_flat :: "dict \<Rightarrow> bool" where
  "is_flat d \<longleftrightarrow> list_all (\<lambda>(k, v). is_scalar v) d"

text \<open>
  A run that gets as far as the loop over the documents: the service is configured, the
  input directory exists, and the schema is a dictionary with a \<open>fields\<close> entry that is
  not empty.
\<close>

definition starts_processing :: "(string \<Rightarrow> json option) \<Rightarrow> run_world \<Rightarrow> bool" where
  "starts_processing loads w \<longleftrightarrow>
     configured w \<and> isdir w \<and>
     (case load_extraction_schema loads w of
        Some (JDict schema) \<Rightarrow>
          schema \<noteq> [] \<and> (case dict_get schema ''fields'' of None \<Rightarrow> False | Some v \<Rightarrow> truthy v)
      | _ \<Rightarrow> False)"

text \<open>
  A path that lies under a directory, the two compared as they are written:
  \<open>os.path.join(dir, "")\<close> is the directory with one slash at its end.
\<close>

definition under :: "string \<Rightarrow> string \<Rightarrow> bool" where
  "under dir p \<longleftrightarrow> prefix (os_path_join dir []) p \<and> p \<noteq> os_path_join dir []"

text \<open>A response wrapped in a markdown fence.\<close>

definition fenced :: "string \<Rightarrow> string" where
  "fenced content = ''```json'' @ content @ ''```''"

text \<open>
  A decoder that gives the same answer when JSON whitespace is added around the text, as
  \<open>json.loads\<close> does.
\<close>

definition ignores_json_ws :: "(string \<Rightarrow> json option) \<Rightarrow> bool" where
  "ignores_json_ws loads \<longleftrightarrow>
     (\<forall>a s b. list_all is_json_ws a \<and> list_all is_json_ws b \<longrightarrow> loads (a @ s @ b) = loads s)"

text \<open>
  The built-in \<open>str\<close> on decoded values, with \<open>repr\<close> for what is inside a list or a
  dictionary. For a float the lexeme stands for its printed form.
\<close>

definition digit_char :: "nat \<Rightarrow> char" where
  "digit_char n = char_of (of_char CHR ''0'' + n)"

fun nat_digits :: "nat \<Rightarrow> string" where
  "nat_digits n = (if n < 10 then [digit_char n] else nat_digits (n div 10) @ [digit_char (n mod 10)])"

declare nat_digits.simps [simp del]

definition int_str :: "int \<Rightarrow> string" where
  "int_str i = (if i < 0 then CHR ''-'' # nat_digits (nat (- i)) else nat_digits (nat i))"

definition hex_digit :: "nat \<Rightarrow> char" where
  "hex_digit n = (if n < 10 then digit_char n else char_of (of_char CHR ''a'' + (n - 10)))"

definition repr_char :: "char \<Rightarrow> char \<Rightarrow> string" where
  "repr_char quote c =
     (let n = (of_char c :: nat) in
      if c = quote \<or> c = CHR 0x5C then [CHR 0x5C, c]
      else if c = CHR 0x09 then [CHR 0x5C, CHR ''t'']
      else if c = CHR 0x0A then [CHR 0x5C, CHR ''n'']
      else if c = CHR 0x0D then [CHR 0x5C, CHR ''r'']
      else if n < 0x20 \<or> (0x7F \<le> n \<and> n \<le> 0xA0) \<or> n = 0xAD
        then [CHR 0x5C, CHR ''x'', hex_digit (n div 16), hex_digit (n mod 16)]
      else [c])"

definition repr_str :: "string \<Rightarrow> string" where
  "repr_str s =
     (let quote = (if CHR 0x27 \<in> set s \<and> CHR 0x22 \<notin> set s then CHR 0x22 else CHR 0x27)
      in quote # concat (map (repr_char quote) s) @ [quote])"

fun py_repr :: "json \<Rightarrow> string"
  and repr_items :: "json list \<Rightarrow> string list"
  and repr_entries :: "(string \<times> json) list \<Rightarrow> string list"
where
  "py_repr JNull = ''None''"
| "py_repr (JBool b) = (if b then ''True'' else ''False'')"
| "py_repr (JInt i) = int_str i"
| "py_repr (JFloat lexeme) = lexeme"
| "py_repr (JStr s) = repr_str s"
| "py_repr (JList xs) = ''['' @ join '', '' (repr_items xs) @ '']''"
| "py_repr (JDict d) = ''{'' @ join '', '' (repr_entries d) @ ''}''"
| "repr_items [] = []"
| "repr_items (x # xs) = py_repr x # repr_items xs"
| "repr_entries [] = []"
| "repr_entries ((k, v) # d) = (repr_str k @ '': '' @ py_repr v) # repr_entries d"

definition py_str :: "json \<Rightarrow> string" where
  "py_str v = (case v of JStr s \<Rightarrow> s | _ \<Rightarrow> py_repr v)"


section \<open>Properties of dictionaries\<close>

lemma dict_get_dict_set: "dict_get (dict_set d k v) k' = (if k' = k then Some v else dict_get d k')"
  by (simp add: dict_get_def dict_set_def update_conv')

lemma keys_dict_set: "set (keys (dict_set d k v)) = insert k (set (keys d))"
  unfolding keys_def dict_set_def by (induction d) auto

lemma dict_set_distinct: "distinct (keys d) \<Longrightarrow> distinct (keys (dict_set d k v))"
  by (simp add: keys_def dict_set_def distinct_update)

lemma dict_update_Cons: "dict_update d ((k, v) # m) = dict_update (dict_set d k v) m"
  by (simp add: dict_update_def)

lemma dict_update_Nil: "dict_update d [] = d"
  by (simp add: dict_update_def)

lemma dict_get_Cons: "dict_get ((k', v') # m) k = (if k = k' then Some v' else dict_get m k)"
  by (simp add: dict_get_def)

lemma dict_get_Nil: "dict_get [] k = None"
  by (simp add: dict_get_def)

lemma keys_Cons: "keys ((k, v) # m) = k # keys m"
  by (simp add: keys_def)

lemma keys_Nil: "keys [] = []"
  by (simp add: keys_def)

lemma dict_get_None_iff: "dict_get m k = None \<longleftrightarrow> k \<notin> set (keys m)"
  by (simp add: dict_get_def keys_def map_of_eq_None_iff)

lemma dict_get_dict_update:
  "distinct (keys m) \<Longrightarrow>
   dict_get (dict_update d m) k = (case dict_get m k of Some v \<Rightarrow> Some v | None \<Rightarrow> dict_get d k)"
proof (induction m arbitrary: d)
  case Nil
  then show ?case by (simp add: dict_update_Nil dict_get_Nil)
next
  case (Cons p m)
  obtain k' v' where p: "p = (k', v')" by (cases p)
  from Cons.prems have dm: "distinct (keys m)" and fresh: "k' \<notin> set (keys m)"
    by (simp_all add: keys_Cons p)
  from fresh have none: "dict_get m k' = None"
    by (simp add: dict_get_None_iff)
  show ?case
    using Cons.IH[OF dm, of "dict_set d k' v'"] none
    by (auto simp: p dict_update_Cons dict_get_dict_set dict_get_Cons split: option.splits)
qed

lemma keys_dict_update: "set (keys (dict_update d m)) = set (keys d) \<union> set (keys m)"
proof (induction m arbitrary: d)
  case Nil
  then show ?case by (simp add: dict_update_Nil keys_Nil)
next
  case (Cons p m)
  obtain k v where p: "p = (k, v)" by (cases p)
  show ?case using Cons.IH[of "dict_set d k v"]
    by (auto simp: p dict_update_Cons keys_dict_set keys_Cons)
qed

lemma dict_set_flat: "is_flat d \<Longrightarrow> is_scalar v \<Longrightarrow> is_flat (dict_set d k v)"
  unfolding is_flat_def dict_set_def
  by (induction d) (auto)

lemma dict_update_distinct: "distinct (keys d) \<Longrightarrow> distinct (keys (dict_update d m))"
  unfolding dict_update_def
  by (induction m arbitrary: d) (auto simp: dict_set_distinct)

lemma dict_update_flat: "is_flat d \<Longrightarrow> is_flat m \<Longrightarrow> is_flat (dict_update d m)"
  unfolding dict_update_def
proof (induction m arbitrary: d)
  case Nil then show ?case by simp
next
  case (Cons p m)
  obtain k v where p: "p = (k, v)" by (cases p)
  from Cons.prems have "is_scalar v" "is_flat m" by (auto simp: is_flat_def p)
  with Cons show ?case by (simp add: p dict_set_flat)
qed

lemma dict_set_fresh: "k \<notin> set (keys d) \<Longrightarrow> dict_set d k v = d @ [(k, v)]"
  unfolding dict_set_def keys_def by (induction d) auto

lemma dict_update_fresh:
  "distinct (keys m) \<Longrightarrow> set (keys m) \<inter> set (keys d) = {} \<Longrightarrow> dict_update d m = d @ m"
  unfolding dict_update_def
proof (induction m arbitrary: d)
  case Nil then show ?case by simp
next
  case (Cons p m)
  obtain k v where p: "p = (k, v)" by (cases p)
  from Cons.prems have k: "k \<notin> set (keys d)" and dm: "distinct (keys m)" and km: "k \<notin> set (keys m)"
    and disj: "set (keys m) \<inter> set (keys d) = {}"
    by (auto simp: p keys_def)
  have "set (keys m) \<inter> set (keys (d @ [(k, v)])) = {}"
    using disj km by (auto simp: keys_def)
  from Cons.IH[OF dm this] show ?case
    by (simp add: p dict_set_fresh[OF k])
qed

lemma dict_of_items_id: "distinct (keys d) \<Longrightarrow> dict_of_items d = d"
  unfolding dict_of_items_def by (simp add: dict_update_fresh keys_def)

section \<open>Properties of the flattening\<close>

lemma flatten_loop_flat_id:
  "is_flat d \<Longrightarrow> flatten_loop str_of d [] sep = d"
proof (induction d)
  case Nil then show ?case by simp
next
  case (Cons p d)
  obtain k v where p: "p = (k, v)" by (cases p)
  from Cons.prems have "is_scalar v" "is_flat d" by (auto simp: is_flat_def p)
  with Cons.IH show ?case by (cases v) (simp_all add: p)
qed

lemma flatten_flat_id:
  "distinct (keys d) \<Longrightarrow> is_flat d \<Longrightarrow> flatten_json_to_csv str_of d [] sep = d"
  by (simp add: flatten_loop_flat_id dict_of_items_id)

lemma is_flat_append: "is_flat (a @ b) \<longleftrightarrow> is_flat a \<and> is_flat b"
  by (auto simp: is_flat_def)

lemma flatten_result:
  "is_flat (flatten_json_to_csv str_of d p sep) \<and> distinct (keys (flatten_json_to_csv str_of d p sep))"
  "is_flat (flatten_loop str_of d p sep)"
proof (induction str_of d p sep and str_of d p sep rule: flatten_json_to_csv_flatten_loop.induct)
  case (1 str_of data parent_key sep)
  have "is_flat []" "distinct (keys [])" by (simp_all add: is_flat_def keys_def)
  with 1 show ?case
    by (simp add: dict_of_items_def dict_update_flat dict_update_distinct)
next
  case (2 str_of parent_key sep)
  then show ?case by (simp add: is_flat_def)
next
  case (3 str_of k v rest parent_key sep)
  then show ?case
    by (cases v) (auto simp: is_flat_append Let_def is_flat_def)
qed

lemma fold_union_keys:
  "fold (\<lambda>item acc. acc \<union> set (keys item)) xs A = A \<union> (\<Union>item \<in> set xs. set (keys item))"
  by (induction xs arbitrary: A) auto

lemma dict_get_row:
  "col \<in> set columns \<Longrightarrow> dict_get (map (\<lambda>c. (c, f c)) columns) col = Some (f col)"
  unfolding dict_get_def by (induction columns) auto

lemma keys_row: "keys (map (\<lambda>c. (c, f c)) columns) = columns"
  by (simp add: keys_def comp_def)

lemma save_to_csv_Some:
  assumes "data \<noteq> []"
  shows "save_to_csv str_of data =
     Some \<lparr>header = sorted_list_of_set (\<Union>item \<in> set data. set (keys (flatten_json_to_csv str_of item [] ''_''))),
           rows = map (\<lambda>item. map (\<lambda>col. (col, case dict_get (flatten_json_to_csv str_of item [] ''_'') col of
                                                          Some v \<Rightarrow> v | None \<Rightarrow> JStr []))
                       (sorted_list_of_set (\<Union>item \<in> set data. set (keys (flatten_json_to_csv str_of item [] ''_'')))))
                    data\<rparr>"
  using assms unfolding save_to_csv_def Let_def
  by (simp add: fold_union_keys comp_def del: flatten_json_to_csv.simps)

section \<open>Properties of the processing of one document\<close>

lemma finish_Inr:
  "finish loads response metadata = Inr r \<Longrightarrow>
     \<exists>text d. response = Text text \<and> parse_response loads text = Inr d \<and> r = dict_update d metadata"
  by (auto simp: finish_def split: reply.splits sum.splits)

lemma process_file_Inr:
  assumes "fst (process_file loads w p tm) = Inr r"
  shows "\<exists>text d. generate_content w = Text text \<and> parse_response loads text = Inr d \<and>
           r = dict_update d [(''filename'', JStr (basename p)),
                              (''processing_mode'', JStr (if tm then ''text'' else ''file''))]"
proof (cases tm)
  case True
  with assms show ?thesis
    unfolding process_file_def Let_def
    by (auto split: option.splits if_splits dest!: finish_Inr)
next
  case False
  with assms show ?thesis
    unfolding process_file_def Let_def
    by (auto split: option.splits if_splits dest!: finish_Inr)
qed

lemma text_mode_result_keys:
  assumes "fst (process_file loads w p True) = Inr r"
  shows "\<exists>text d. generate_content w = Text text \<and> parse_response loads text = Inr d
           \<and> set (keys r) = set (keys d) \<union> {''filename'', ''processing_mode''}"
proof -
  from process_file_Inr[OF assms] obtain t d where
    g: "generate_content w = Text t" and pr: "parse_response loads t = Inr d" and
    r: "r = dict_update d [(''filename'', JStr (basename p)), (''processing_mode'', JStr ''text'')]"
    by auto
  have "set (keys r) = set (keys d) \<union> {''filename'', ''processing_mode''}"
    unfolding r keys_dict_update by (simp add: keys_Cons keys_Nil)
  with g pr show ?thesis by blast
qed

lemma process_all_Cons:
  "process_all loads a w (p # rest) =
     (case fst (process_file loads (doc w (opened_path (getcwd w) p)) p (text_mode a)) of
        Inl e \<Rightarrow>
          (Notice e # Failed (basename p) # fst (process_all loads a w rest),
           fst (snd (process_all loads a w rest)),
           (p, opened_path (getcwd w) p,
            snd (process_file loads (doc w (opened_path (getcwd w) p)) p (text_mode a)))
             # snd (snd (process_all loads a w rest)))
      | Inr result \<Rightarrow>
          if result \<noteq> []
          then (Success (basename p) # fst (process_all loads a w rest),
                result # fst (snd (process_all loads a w rest)),
                (p, opened_path (getcwd w) p,
                 snd (process_file loads (doc w (opened_path (getcwd w) p)) p (text_mode a)))
                  # snd (snd (process_all loads a w rest)))
          else (Failed (basename p) # fst (process_all loads a w rest),
                fst (snd (process_all loads a w rest)),
                (p, opened_path (getcwd w) p,
                 snd (process_file loads (doc w (opened_path (getcwd w) p)) p (text_mode a)))
                  # snd (snd (process_all loads a w rest))))"
  by (simp add: Let_def split: prod.splits sum.splits)

lemma calls_of_process_all:
  "snd (snd (process_all loads a w files)) =
     map (\<lambda>p. (p, opened_path (getcwd w) p,
               snd (process_file loads (doc w (opened_path (getcwd w) p)) p (text_mode a))))
       files"
proof (induction files)
  case Nil
  then show ?case by simp
next
  case (Cons p files)
  then show ?case
    unfolding process_all_Cons by (simp split: sum.splits)
qed

lemma processed_main:
  assumes "starts_processing loads w"
  shows "processed (main loads str_of a w) = snd (snd (process_all loads a w (pdf_files a w)))"
proof -
  from assms obtain schema where
    c: "configured w" "isdir w" and l: "load_extraction_schema loads w = Some (JDict schema)"
    and ne: "schema \<noteq> []"
    and f: "(case dict_get schema ''fields'' of None \<Rightarrow> False | Some v \<Rightarrow> truthy v)"
    by (auto simp: starts_processing_def split: option.splits json.splits)
  show ?thesis
  proof (cases "pdf_files a w = []")
    case True
    with c l ne f show ?thesis by (simp add: main_def)
  next
    case False
    with c l ne f show ?thesis
      by (simp add: main_def Let_def split: prod.splits)
  qed
qed

lemma missing_fields_stops_run:
  assumes "configured w" and "isdir w"
    and "load_extraction_schema loads w = Some (JDict schema)" and "schema \<noteq> []"
    and "dict_get schema ''fields'' = None \<or> dict_get schema ''fields'' = Some (JList [])"
  shows "main loads str_of a w = \<lparr>console = [Banner, NoFieldsError], processed = [], written = None\<rparr>"
  using assms by (auto simp: main_def)

lemma process_file_first_call:
  "\<exists>more. snd (process_file loads d p tm) = (if tm then OpenPdf else GetSize) # more"
  unfolding process_file_def Let_def
  by (simp split: option.splits)

lemma os_path_join_dir: "\<not> prefix ''/'' f \<Longrightarrow> os_path_join d f = os_path_join d [] @ f"
  by (auto simp: os_path_join_def)

lemma os_path_join_dir_slash: "d \<noteq> [] \<Longrightarrow> suffix ''/'' (os_path_join d [])"
  by (auto simp: os_path_join_def suffix_def)

lemma os_path_join_absolute: "prefix ''/'' c \<Longrightarrow> os_path_join c x \<noteq> []"
  by (auto simp: os_path_join_def)

lemma bare_name_relative: "CHR ''/'' \<notin> set f \<Longrightarrow> \<not> prefix ''/'' f"
  by (auto simp: prefix_def)

section \<open>The decoder ignores whitespace around the text\<close>

lemma takeWhile_append_none:
  "\<forall>x \<in> set b. \<not> P x \<Longrightarrow> takeWhile P (s @ b) = takeWhile P s"
  by (induction s) (auto simp: takeWhile_eq_Nil_iff)

lemma json_ws_not_digit: "is_json_ws c \<Longrightarrow> \<not> is_digit c"
  by (auto simp: is_json_ws_def is_digit_def)

lemma takeWhile_digit_ws:
  "list_all is_json_ws b \<Longrightarrow> takeWhile is_digit (s @ b) = takeWhile is_digit s"
  by (rule takeWhile_append_none) (auto simp: list_all_iff json_ws_not_digit)

lemma json_ws_cases: "is_json_ws c \<longleftrightarrow> c = CHR 0x20 \<or> c = CHR 0x09 \<or> c = CHR 0x0A \<or> c = CHR 0x0D"
  by (auto simp: is_json_ws_def)

lemma sign_part_ws: "list_all is_json_ws b \<Longrightarrow> sign_part (s @ b) = sign_part s"
  by (cases s; cases b) (auto simp: sign_part_def json_ws_cases)

lemma int_part_ws: "list_all is_json_ws b \<Longrightarrow> int_part (s @ b) = int_part s"
proof (cases s)
  case Nil
  assume "list_all is_json_ws b"
  with Nil show ?thesis
    by (cases b) (auto simp: int_part_def json_ws_cases is_digit_def)
next
  case (Cons c cs)
  assume b: "list_all is_json_ws b"
  have "takeWhile is_digit ((c # cs) @ b) = takeWhile is_digit (c # cs)"
    by (rule takeWhile_digit_ws[OF b])
  then show ?thesis using Cons by (simp add: int_part_def)
qed

lemma frac_part_ws: "list_all is_json_ws b \<Longrightarrow> frac_part (s @ b) = frac_part s"
proof -
  assume b: "list_all is_json_ws b"
  show ?thesis
  proof (cases s)
    case Nil
    with b show ?thesis
      by (cases b) (auto simp: frac_part_def json_ws_cases split: list.splits)
  next
    case (Cons c cs)
    show ?thesis
    proof (cases cs)
      case Nil
      with Cons b show ?thesis
        by (cases b) (auto simp: frac_part_def json_ws_not_digit)
    next
      case (Cons d r)
      with \<open>s = c # cs\<close> show ?thesis
        by (simp add: frac_part_def takeWhile_digit_ws[OF b])
    qed
  qed
qed

lemma exp_part_ws: "list_all is_json_ws b \<Longrightarrow> exp_part (s @ b) = exp_part s"
proof -
  assume b: "list_all is_json_ws b"
  have hb: "b \<noteq> [] \<Longrightarrow> \<not> is_digit (hd b) \<and> hd b \<noteq> CHR ''-'' \<and> hd b \<noteq> CHR ''+''
       \<and> hd b \<noteq> CHR ''e'' \<and> hd b \<noteq> CHR ''E''"
    using b by (cases b) (auto simp: json_ws_cases is_digit_def)
  show ?thesis
  proof (cases s)
    case Nil
    with hb show ?thesis
      by (cases b) (auto simp: exp_part_def split: list.splits)
  next
    case s: (Cons c cs)
    show ?thesis
    proof (cases cs)
      case Nil
      with s hb show ?thesis
        by (cases b) (auto simp: exp_part_def split: list.splits)
    next
      case cs: (Cons d r)
      show ?thesis
      proof (cases r)
        case Nil
        with s cs hb show ?thesis
          by (cases b) (auto simp: exp_part_def takeWhile_digit_ws[OF b])
      next
        case (Cons x r')
        with s cs show ?thesis by (simp add: exp_part_def takeWhile_digit_ws[OF b])
      qed
    qed
  qed
qed

lemma sign_part_le: "length (sign_part s) \<le> length s"
  by (cases s) (auto simp: sign_part_def)

lemma int_part_le: "length (int_part s) \<le> length s"
  by (cases s) (auto simp: int_part_def length_takeWhile_le
        intro: le_trans[OF length_takeWhile_le])

lemma frac_part_le: "length (frac_part s) \<le> length s"
  by (auto simp: frac_part_def split: list.splits intro: le_trans[OF length_takeWhile_le])

lemma exp_part_le: "length (exp_part s) \<le> length s"
  by (auto simp: exp_part_def split: list.splits intro: le_trans[OF length_takeWhile_le])

lemma scan_number_ws:
  assumes b: "list_all is_json_ws b"
  shows "scan_number (s @ b) = map_option (apsnd (\<lambda>r. r @ b)) (scan_number s)"
proof -
  define s1 where "s1 = drop (length (sign_part s)) s"
  define s2 where "s2 = drop (length (int_part s1)) s1"
  define s3 where "s3 = drop (length (frac_part s2)) s2"
  define s4 where "s4 = drop (length (exp_part s3)) s3"
  have d1: "drop (length (sign_part (s @ b))) (s @ b) = s1 @ b"
    by (simp add: sign_part_ws[OF b] s1_def sign_part_le)
  have d2: "drop (length (int_part (s1 @ b))) (s1 @ b) = s2 @ b"
    by (simp add: int_part_ws[OF b] s2_def int_part_le)
  have d3: "drop (length (frac_part (s2 @ b))) (s2 @ b) = s3 @ b"
    by (simp add: frac_part_ws[OF b] s3_def frac_part_le)
  have d4: "drop (length (exp_part (s3 @ b))) (s3 @ b) = s4 @ b"
    by (simp add: exp_part_ws[OF b] s4_def exp_part_le)
  have l: "scan_number (s @ b) =
     (if int_part (s1 @ b) = [] then None
         else if frac_part (s2 @ b) = [] \<and> exp_part (s3 @ b) = [] then
           Some (JInt ((if sign_part (s @ b) = [] then 1 else - 1) * int (nat_of_digits (int_part (s1 @ b)))), s4 @ b)
         else Some (JFloat (sign_part (s @ b) @ int_part (s1 @ b) @ frac_part (s2 @ b) @ exp_part (s3 @ b)), s4 @ b))"
    unfolding scan_number_def Let_def d1 d2 d3 d4 ..
  have r: "scan_number s =
     (if int_part s1 = [] then None
         else if frac_part s2 = [] \<and> exp_part s3 = [] then
           Some (JInt ((if sign_part s = [] then 1 else - 1) * int (nat_of_digits (int_part s1))), s4)
         else Some (JFloat (sign_part s @ int_part s1 @ frac_part s2 @ exp_part s3), s4))"
    unfolding scan_number_def Let_def s1_def s2_def s3_def s4_def ..
  show ?thesis
    unfolding l r sign_part_ws[OF b] int_part_ws[OF b] frac_part_ws[OF b] exp_part_ws[OF b]
    by simp
qed

lemma scan_string_only_ws: "list_all is_json_ws b \<Longrightarrow> scan_string b = None"
  by (induction b) (auto simp: json_ws_cases escape_char_def)

lemma hex_val_ws: "is_json_ws c \<Longrightarrow> hex_val c = None"
  by (auto simp: json_ws_cases hex_val_def is_digit_def)

lemma decode_hex4_short: "length s < 4 \<Longrightarrow> decode_hex4 s = None"
  by (auto simp: decode_hex4_def split: list.splits option.splits)

lemma decode_hex4_ws_inside: "\<exists>c \<in> set s. is_json_ws c \<Longrightarrow> decode_hex4 s = None"
  by (auto simp: decode_hex4_def hex_val_ws split: list.splits option.splits)

lemma decode_hex4_take_ws:
  assumes b: "list_all is_json_ws b"
  shows "decode_hex4 (take 4 (s @ b)) = decode_hex4 (take 4 s)"
proof (cases "4 \<le> length s")
  case True
  then show ?thesis by simp
next
  case False
  then have short: "decode_hex4 (take 4 s) = None" by (simp add: decode_hex4_short)
  show ?thesis
  proof (cases b)
    case Nil
    then show ?thesis by simp
  next
    case (Cons c b')
    from False obtain k where k: "4 - length s = Suc k" by (cases "4 - length s") auto
    have "c \<in> set (take 4 (s @ b))" using Cons k by simp
    moreover have "is_json_ws c" using b Cons by simp
    ultimately have "\<exists>c \<in> set (take 4 (s @ b)). is_json_ws c" by blast
    from decode_hex4_ws_inside[OF this] short show ?thesis by simp
  qed
qed

lemma scan_string_ws:
  assumes b: "list_all is_json_ws b"
  shows "scan_string (s @ b) = map_option (apsnd (\<lambda>r. r @ b)) (scan_string s)"
proof (induction s rule: scan_string.induct)
  case 1
  show ?case using scan_string_only_ws[OF b] by simp
next
  case (2 c cs)
  show ?case
  proof (cases "c = CHR 0x22")
    case True
    then show ?thesis by simp
  next
    case nq: False
    show ?thesis
    proof (cases "c = CHR 0x5C")
      case bs: True
      show ?thesis
      proof (cases cs)
        case Nil
        with bs nq b show ?thesis
          by (cases b) (auto simp: json_ws_cases escape_char_def)
      next
        case (Cons e cs')
        show ?thesis
        proof (cases "e = CHR ''u''")
          case True
          have dh: "decode_hex4 (take 4 (cs' @ b)) = decode_hex4 (take 4 cs')"
            by (rule decode_hex4_take_ws[OF b])
          show ?thesis
          proof (cases "decode_hex4 (take 4 cs')")
            case None
            with bs nq Cons True dh show ?thesis by simp
          next
            case (Some ch)
            then have "4 \<le> length cs'" using decode_hex4_short[of "take 4 cs'"]
              by (cases "4 \<le> length cs'") auto
            then have dr: "drop 4 (cs' @ b) = drop 4 cs' @ b" by simp
            from "2.IH"(1)[OF nq bs Cons True Some]
            have "scan_string (drop 4 cs' @ b) = map_option (apsnd (\<lambda>r. r @ b)) (scan_string (drop 4 cs'))" .
            with bs nq Cons True dh Some dr show ?thesis
              by (simp add: option.map_comp comp_def apfst_def apsnd_def map_prod_def split_def)
          qed
        next
          case nu: False
          show ?thesis
          proof (cases "escape_char e")
            case None
            with bs nq Cons nu show ?thesis by simp
          next
            case (Some ch)
            from "2.IH"(2)[OF nq bs Cons nu Some]
            have "scan_string (cs' @ b) = map_option (apsnd (\<lambda>r. r @ b)) (scan_string cs')" .
            with bs nq Cons nu Some show ?thesis
              by (simp add: option.map_comp comp_def apfst_def apsnd_def map_prod_def split_def)
          qed
        qed
      qed
    next
      case nb: False
      show ?thesis
      proof (cases "(of_char c :: nat) < 0x20")
        case True
        with nq nb show ?thesis by simp
      next
        case False
        from "2.IH"(3)[OF nq nb False]
        have "scan_string (cs @ b) = map_option (apsnd (\<lambda>r. r @ b)) (scan_string cs)" .
        with nq nb False show ?thesis
          by (simp add: option.map_comp comp_def apfst_def apsnd_def map_prod_def split_def)
      qed
    qed
  qed
qed

lemma prefix_append_last:
  assumes "p \<noteq> []" and "last p \<notin> set b"
  shows "prefix p (s @ b) \<longleftrightarrow> prefix p s"
proof
  assume "prefix p (s @ b)"
  then consider "prefix p s" | us where "p = s @ us" "prefix us b"
    by (auto simp: prefix_append)
  then show "prefix p s"
  proof cases
    case 1
    then show ?thesis .
  next
    case 2
    show ?thesis
    proof (cases "us = []")
      case True
      with 2 show ?thesis by simp
    next
      case False
      with 2 have "last p = last us" by simp
      moreover have "last us \<in> set us" using False by simp
      moreover have "set us \<subseteq> set b" using 2(2) by (rule set_mono_prefix)
      ultimately show ?thesis using assms(2) by auto
    qed
  qed
next
  assume "prefix p s"
  then show "prefix p (s @ b)" by (rule prefix_prefix)
qed

lemma json_ws_set: "list_all is_json_ws b \<Longrightarrow> c \<notin> {CHR 0x20, CHR 0x09, CHR 0x0A, CHR 0x0D} \<Longrightarrow> c \<notin> set b"
  by (auto simp: list_all_iff json_ws_cases)

lemma keyword_ws: "list_all is_json_ws b \<Longrightarrow> keyword (s @ b) = keyword s"
  unfolding keyword_def
  by (simp add: prefix_append_last json_ws_set)

lemma float_word_ws: "list_all is_json_ws b \<Longrightarrow> float_word (s @ b) = float_word s"
  unfolding float_word_def
  by (simp add: prefix_append_last json_ws_set)

lemma keyword_le: "keyword s = Some (v, n) \<Longrightarrow> n \<le> length s"
  by (auto simp: keyword_def prefix_def split: if_splits)

lemma float_word_le: "float_word s = Some (v, n) \<Longrightarrow> n \<le> length s"
  by (auto simp: float_word_def prefix_def split: if_splits)

lemma next_token_ws:
  assumes b: "list_all is_json_ws b"
  shows "next_token ((c # cs) @ b) = map_option (apsnd (\<lambda>r. r @ b)) (next_token (c # cs))"
proof -
  have kw: "keyword (c # cs @ b) = keyword (c # cs)"
    using keyword_ws[OF b, of "c # cs"] by simp
  have fw: "float_word (c # cs @ b) = float_word (c # cs)"
    using float_word_ws[OF b, of "c # cs"] by simp
  have sn: "scan_number (c # cs @ b) = map_option (apsnd (\<lambda>r. r @ b)) (scan_number (c # cs))"
    using scan_number_ws[OF b, of "c # cs"] by simp
  have ss: "scan_string (cs @ b) = map_option (apsnd (\<lambda>r. r @ b)) (scan_string cs)"
    by (rule scan_string_ws[OF b])
  show ?thesis
  proof (cases "c = CHR 0x22")
    case True
    then show ?thesis
      by (simp add: next_token_def ss option.map_comp comp_def apfst_def apsnd_def map_prod_def split_def)
  next
    case nq: False
    show ?thesis
    proof (cases "punctuation c")
      case (Some t)
      with nq show ?thesis by (simp add: next_token_def)
    next
      case np: None
      show ?thesis
      proof (cases "keyword (c # cs)")
        case (Some p)
        obtain v n where p: "p = (v, n)" by (cases p)
        from keyword_le[OF Some[unfolded p]] have "drop n (c # cs @ b) = drop n (c # cs) @ b"
          using drop_append[of n "c # cs" b] by simp
        with nq np Some p kw show ?thesis by (simp add: next_token_def)
      next
        case nk: None
        show ?thesis
        proof (cases "scan_number (c # cs)")
          case (Some p)
          obtain v r where p: "p = (v, r)" by (cases p)
          with nq np nk kw sn Some show ?thesis by (simp add: next_token_def)
        next
          case nn: None
          show ?thesis
          proof (cases "float_word (c # cs)")
            case None
            with nq np nk kw sn nn fw show ?thesis by (simp add: next_token_def)
          next
            case (Some p)
            obtain v n where p: "p = (v, n)" by (cases p)
            from float_word_le[OF Some[unfolded p]] have "drop n (c # cs @ b) = drop n (c # cs) @ b"
              using drop_append[of n "c # cs" b] by simp
            with nq np nk kw sn nn fw Some p show ?thesis by (simp add: next_token_def)
          qed
        qed
      qed
    qed
  qed
qed

lemma dropWhile_ws_append:
  "list_all is_json_ws b \<Longrightarrow>
   dropWhile is_json_ws (s @ b) =
     (if dropWhile is_json_ws s = [] then [] else dropWhile is_json_ws s @ b)"
  by (induction s) (auto simp: dropWhile_eq_Nil_conv list_all_iff)

lemma lex_trailing_ws:
  assumes b: "list_all is_json_ws b"
  shows "lex (s @ b) = lex s"
proof (induction s rule: lex.induct)
  case (1 s)
  show ?case
  proof (cases "dropWhile is_json_ws s")
    case Nil
    then have "dropWhile is_json_ws (s @ b) = []" by (simp add: dropWhile_ws_append[OF b])
    with Nil show ?thesis by (simp add: lex.simps[of s] lex.simps[of "s @ b"])
  next
    case (Cons c cs)
    then have d: "dropWhile is_json_ws (s @ b) = (c # cs) @ b"
      by (simp add: dropWhile_ws_append[OF b])
    note nt = next_token_ws[OF b, of c cs]
    show ?thesis
    proof (cases "next_token (c # cs)")
      case None
      with nt have "next_token ((c # cs) @ b) = None" by simp
      with None Cons d show ?thesis by (simp add: lex.simps[of s] lex.simps[of "s @ b"])
    next
      case (Some p)
      obtain t rest where p: "p = (t, rest)" by (cases p)
      from Some p nt have n2: "next_token ((c # cs) @ b) = Some (t, rest @ b)" by simp
      have ih: "lex (rest @ b) = lex rest"
        using "1.IH"[of "c # cs" "(t, rest)" t rest] Cons Some p by simp
      have l1: "lex s = map_option ((#) t) (lex rest)"
        using Cons Some p by (simp add: lex.simps[of s])
      have l2: "lex (s @ b) = map_option ((#) t) (lex (rest @ b))"
        using d n2 by (simp add: lex.simps[of "s @ b"])
      show ?thesis unfolding l1 l2 ih ..
    qed
  qed
qed

lemma lex_leading_ws:
  assumes a: "list_all is_json_ws a"
  shows "lex (a @ s) = lex s"
proof -
  have "dropWhile is_json_ws (a @ s) = dropWhile is_json_ws s"
    using a by (induction a) auto
  then show ?thesis by (simp add: lex.simps[of s] lex.simps[of "a @ s"])
qed

lemma json_loads_ignores_json_ws: "ignores_json_ws json_loads"
  unfolding ignores_json_ws_def
proof (intro allI impI)
  fix a s b
  assume h: "list_all is_json_ws a \<and> list_all is_json_ws b"
  then have "lex (a @ s @ b) = lex s"
    using lex_leading_ws[of a "s @ b"] lex_trailing_ws[of b s] by simp
  then show "json_loads (a @ s @ b) = json_loads s"
    by (simp add: json_loads_def)
qed

section \<open>Removing the fence markers\<close>

lemma replace_step:
  "old \<noteq> [] \<Longrightarrow> replace s old [] =
     (if prefix old s then replace (drop (length old) s) old []
      else (case s of [] \<Rightarrow> [] | c # cs \<Rightarrow> c # replace cs old []))"
  by (subst replace.simps) simp

lemma replace_empty: "old \<noteq> [] \<Longrightarrow> replace [] old [] = []"
  by (simp add: replace_step)

lemma replace_at_prefix: "old \<noteq> [] \<Longrightarrow> replace (old @ s) old [] = replace s old []"
  by (subst replace_step) simp_all

lemma replace_no_prefix:
  "old \<noteq> [] \<Longrightarrow> \<not> prefix old (c # cs) \<Longrightarrow> replace (c # cs) old [] = c # replace cs old []"
  by (subst replace_step) simp_all

lemma replace_skip:
  "old \<noteq> [] \<Longrightarrow> hd old \<notin> set a \<Longrightarrow> replace (a @ s) old [] = a @ replace s old []"
proof (induction a)
  case Nil
  then show ?case by simp
next
  case (Cons c a)
  then have "\<not> prefix old (c # a @ s)" by (cases old) auto
  with Cons show ?case by (simp add: replace_no_prefix)
qed

lemma replace_append_tail:
  assumes "old \<noteq> []" and "last old \<notin> set t" and "replace t old [] = t"
  shows "replace (m @ t) old [] = replace m old [] @ t"
proof (induction m rule: length_induct)
  case (1 m)
  show ?case
  proof (cases "prefix old m")
    case True
    then obtain m' where m: "m = old @ m'" by (auto simp: prefix_def)
    with assms(1) have "length m' < length m" by simp
    with 1 have "replace (m' @ t) old [] = replace m' old [] @ t" by blast
    then show ?thesis using assms(1) replace_at_prefix[of old "m' @ t"] replace_at_prefix[of old m']
      by (simp add: m)
  next
    case False
    show ?thesis
    proof (cases m)
      case Nil
      with assms show ?thesis by (simp add: replace_empty)
    next
      case (Cons c cs)
      from False have "\<not> prefix old (m @ t)" using prefix_append_last[OF assms(1,2)] by simp
      then have np: "\<not> prefix old (c # cs @ t)" using Cons by simp
      have "replace (cs @ t) old [] = replace cs old [] @ t" using 1 Cons by simp
      with np False Cons assms(1) show ?thesis by (simp add: replace_no_prefix)
    qed
  qed
qed

lemma prefix_append_hd:
  assumes "t \<noteq> []" and "hd t \<notin> set p"
  shows "prefix p (s @ t) \<longleftrightarrow> prefix p s"
proof
  assume "prefix p (s @ t)"
  then consider "prefix p s" | us where "p = s @ us" "prefix us t"
    by (auto simp: prefix_append)
  then show "prefix p s"
  proof cases
    case 1
    then show ?thesis .
  next
    case 2
    show ?thesis
    proof (cases us)
      case Nil
      with 2 show ?thesis by simp
    next
      case (Cons u us')
      with 2(2) assms(1) have "hd t = u" by (cases t) auto
      with 2(1) Cons assms(2) show ?thesis by simp
    qed
  qed
next
  assume "prefix p s"
  then show "prefix p (s @ t)" by (rule prefix_prefix)
qed

lemma replace_append_sep:
  assumes "old \<noteq> []" and "t \<noteq> []" and "hd t \<notin> set old"
  shows "replace (m @ t) old [] = replace m old [] @ replace t old []"
proof (induction m rule: length_induct)
  case (1 m)
  show ?case
  proof (cases "prefix old m")
    case True
    then obtain m' where m: "m = old @ m'" by (auto simp: prefix_def)
    with assms(1) have "length m' < length m" by simp
    with 1 have "replace (m' @ t) old [] = replace m' old [] @ replace t old []" by blast
    then show ?thesis using assms(1) replace_at_prefix[of old "m' @ t"] replace_at_prefix[of old m']
      by (simp add: m)
  next
    case False
    show ?thesis
    proof (cases m)
      case Nil
      with assms show ?thesis by (simp add: replace_empty)
    next
      case (Cons c cs)
      from False have "\<not> prefix old (m @ t)" using prefix_append_hd[OF assms(2,3)] by simp
      then have np: "\<not> prefix old (c # cs @ t)" using Cons by simp
      have "replace (cs @ t) old [] = replace cs old [] @ replace t old []" using 1 Cons by simp
      with np False Cons assms(1) show ?thesis by (simp add: replace_no_prefix)
    qed
  qed
qed

lemma replace_fence_tail: \<open>replace (y @ ''```'') ''```'' [] = replace y ''```'' []\<close>
proof (induction y rule: length_induct)
  case (1 y)
  have ne: \<open>''```'' \<noteq> []\<close> by simp
  show ?case
  proof (cases \<open>prefix ''```'' y\<close>)
    case True
    then obtain y' where y: \<open>y = ''```'' @ y'\<close> by (auto simp: prefix_def)
    then have "length y' < length y" by simp
    with 1 have \<open>replace (y' @ ''```'') ''```'' [] = replace y' ''```'' []\<close> by blast
    then show ?thesis
      using replace_at_prefix[OF ne, of \<open>y' @ ''```''\<close>] replace_at_prefix[OF ne, of y']
      by (simp add: y)
  next
    case False
    show ?thesis
    proof (cases y)
      case Nil
      then show ?thesis using replace_at_prefix[OF ne, of "[]"] by (simp add: replace_empty)
    next
      case (Cons c cs)
      show ?thesis
      proof (cases \<open>prefix ''```'' (y @ ''```'')\<close>)
        case True
        with False Cons have \<open>y = ''`'' \<or> y = ''``''\<close>
          by (cases cs; cases "tl cs") auto
        then show ?thesis
        proof
          assume y: \<open>y = ''`''\<close>
          have \<open>replace (''```'' @ ''`'') ''```'' [] = replace ''`'' ''```'' []\<close>
            by (rule replace_at_prefix[OF ne])
          then show ?thesis by (simp add: y)
        next
          assume y: \<open>y = ''``''\<close>
          have \<open>replace (''```'' @ ''``'') ''```'' [] = replace ''``'' ''```'' []\<close>
            by (rule replace_at_prefix[OF ne])
          then show ?thesis by (simp add: y)
        qed
      next
        case np: False
        then have np': \<open>\<not> prefix ''```'' (c # cs @ ''```'')\<close> using Cons by simp
        have \<open>replace (cs @ ''```'') ''```'' [] = replace cs ''```'' []\<close> using 1 Cons by simp
        with np' False Cons show ?thesis by (simp add: replace_no_prefix)
      qed
    qed
  qed
qed

lemma json_ws_py_isspace: "is_json_ws c \<Longrightarrow> py_isspace c"
  by (auto simp: json_ws_cases py_isspace_def)

lemma not_ws_notin: "list_all is_json_ws b \<Longrightarrow> \<not> is_json_ws c \<Longrightarrow> c \<notin> set b"
  by (auto simp: list_all_iff)

lemma strip_fenced: "strip (fenced content) = fenced content"
  by (simp add: strip_def fenced_def py_isspace_def)

lemma replace_fence_alone: \<open>replace ''```'' ''```json'' [] = ''```''\<close>
proof -
  have ne: \<open>''```json'' \<noteq> []\<close> by simp
  show ?thesis
    by (simp add: replace_no_prefix[OF ne] replace_empty[OF ne])
qed

lemma replace_fence_self: \<open>replace ''```'' ''```'' [] = []\<close>
proof -
  have ne: \<open>''```'' \<noteq> []\<close> by simp
  from replace_at_prefix[OF ne, of "[]"] show ?thesis by (simp add: replace_empty)
qed

lemma clean_response_fenced:
  assumes a: "list_all is_json_ws a" and b: "list_all is_json_ws b"
  shows \<open>clean_response (fenced (a @ x @ b)) =
           a @ replace (replace x ''```json'' []) ''```'' [] @ b\<close>
proof -
  have ne1: \<open>''```json'' \<noteq> []\<close> and ne2: \<open>''```'' \<noteq> []\<close> by simp_all
  have tick_a: \<open>CHR ''`'' \<notin> set a\<close>
    by (rule not_ws_notin[OF a]) (simp add: is_json_ws_def)
  have tick_b: \<open>CHR ''`'' \<notin> set b\<close>
    by (rule not_ws_notin[OF b]) (simp add: is_json_ws_def)
  have n_b: \<open>CHR ''n'' \<notin> set b\<close>
    by (rule not_ws_notin[OF b]) (simp add: is_json_ws_def)
  have hd1: \<open>hd ''```json'' \<notin> set a\<close> \<open>hd ''```json'' \<notin> set b\<close>
    and hd2: \<open>hd ''```'' \<notin> set a\<close> \<open>hd ''```'' \<notin> set b\<close>
    using tick_a tick_b by simp_all
  have tail1: \<open>replace (b @ ''```'') ''```json'' [] = b @ ''```''\<close>
    using replace_skip[OF ne1 hd1(2), of \<open>''```''\<close>] by (simp add: replace_fence_alone)
  have last1: \<open>last ''```json'' \<notin> set (b @ ''```'')\<close> using n_b by simp
  have step1: \<open>replace (''```json'' @ a @ x @ b @ ''```'') ''```json'' [] =
                 a @ replace x ''```json'' [] @ b @ ''```''\<close>
  proof -
    have \<open>replace (''```json'' @ a @ x @ b @ ''```'') ''```json'' [] =
            replace (a @ x @ b @ ''```'') ''```json'' []\<close>
      by (rule replace_at_prefix[OF ne1])
    also have \<open>\<dots> = a @ replace (x @ (b @ ''```'')) ''```json'' []\<close>
      using replace_skip[OF ne1 hd1(1), of \<open>x @ b @ ''```''\<close>] by simp
    also have \<open>replace (x @ (b @ ''```'')) ''```json'' [] = replace x ''```json'' [] @ (b @ ''```'')\<close>
      by (rule replace_append_tail[OF ne1 last1 tail1])
    finally show ?thesis by simp
  qed
  define y where \<open>y = replace x ''```json'' []\<close>
  have tail2: \<open>replace (b @ ''```'') ''```'' [] = b\<close>
    using replace_skip[OF ne2 hd2(2), of \<open>''```''\<close>] by (simp add: replace_fence_self)
  have step2a: \<open>replace (y @ b @ ''```'') ''```'' [] = replace y ''```'' [] @ b\<close>
  proof (cases b)
    case Nil
    then show ?thesis by (simp add: replace_fence_tail)
  next
    case (Cons c b')
    then have \<open>b @ ''```'' \<noteq> []\<close> and \<open>hd (b @ ''```'') \<notin> set ''```''\<close>
      using tick_b by auto
    from replace_append_sep[OF ne2 this, of y] tail2 show ?thesis by simp
  qed
  have step2: \<open>replace (a @ y @ b @ ''```'') ''```'' [] = a @ replace y ''```'' [] @ b\<close>
    using replace_skip[OF ne2 hd2(1), of \<open>y @ b @ ''```''\<close>] step2a by simp
  have \<open>clean_response (fenced (a @ x @ b)) =
          replace (replace (''```json'' @ a @ x @ b @ ''```'') ''```json'' []) ''```'' []\<close>
    unfolding clean_response_def strip_fenced by (simp add: fenced_def)
  also have \<open>\<dots> = replace (a @ y @ b @ ''```'') ''```'' []\<close>
    unfolding step1 y_def ..
  also have \<open>\<dots> = a @ replace y ''```'' [] @ b\<close> by (rule step2)
  finally show ?thesis unfolding y_def .
qed

lemma strip_decomposition:
  "content = takeWhile py_isspace content @ strip content
             @ rev (takeWhile py_isspace (rev (dropWhile py_isspace content)))"
proof -
  let ?d = "dropWhile py_isspace content"
  have "rev ?d = takeWhile py_isspace (rev ?d) @ dropWhile py_isspace (rev ?d)" by simp
  then have "rev (rev ?d) = rev (takeWhile py_isspace (rev ?d) @ dropWhile py_isspace (rev ?d))"
    by (rule arg_cong)
  then have "?d = rev (dropWhile py_isspace (rev ?d)) @ rev (takeWhile py_isspace (rev ?d))"
    by (simp only: rev_rev_ident rev_append)
  then have d: "?d = strip content @ rev (takeWhile py_isspace (rev ?d))"
    by (simp only: strip_def)
  have "content = takeWhile py_isspace content @ ?d" by simp
  with d show ?thesis by (simp only:)
qed

lemma takeWhile_rev_dropWhile_subset:
  "set (takeWhile P (rev (dropWhile P xs))) \<subseteq> set (takeWhile P (rev xs))"
proof -
  have "rev xs = rev (takeWhile P xs @ dropWhile P xs)" by simp
  then have "rev xs = rev (dropWhile P xs) @ rev (takeWhile P xs)"
    by (simp only: rev_append)
  then have "takeWhile P (rev xs) = takeWhile P (rev (dropWhile P xs) @ rev (takeWhile P xs))"
    by simp
  then show ?thesis
    by (auto simp: takeWhile_append split: if_splits dest: set_takeWhileD)
qed

lemma clean_response_fenced_margins:
  assumes l: "list_all is_json_ws (takeWhile py_isspace content)"
    and r: "list_all is_json_ws (takeWhile py_isspace (rev content))"
  shows "\<exists>a b. list_all is_json_ws a \<and> list_all is_json_ws b
           \<and> clean_response (fenced content) = a @ clean_response content @ b"
proof -
  define a where "a = takeWhile py_isspace content"
  define b where "b = rev (takeWhile py_isspace (rev (dropWhile py_isspace content)))"
  have wa: "list_all is_json_ws a" using l by (simp add: a_def)
  have wb: "list_all is_json_ws b"
    using r takeWhile_rev_dropWhile_subset[of py_isspace content]
    by (auto simp: b_def list_all_iff)
  have c: "content = a @ strip content @ b"
    unfolding a_def b_def by (rule strip_decomposition)
  have "clean_response (fenced (a @ strip content @ b)) = a @ clean_response content @ b"
    using clean_response_fenced[OF wa wb, of "strip content"] by (simp add: clean_response_def)
  moreover have "clean_response (fenced content) = clean_response (fenced (a @ strip content @ b))"
    using arg_cong[OF c, of "\<lambda>t. clean_response (fenced t)"] by (simp only:)
  ultimately have "clean_response (fenced content) = a @ clean_response content @ b"
    by (simp only:)
  with wa wb show ?thesis by blast
qed

lemma re_search_braces_ws:
  assumes a: "list_all is_json_ws a" and b: "list_all is_json_ws b"
  shows "re_search_braces (a @ z @ b) = re_search_braces z"
proof -
  have "CHR ''{'' \<notin> set a"
    by (rule not_ws_notin[OF a]) (simp add: is_json_ws_def)
  then have oa: "\<forall>c \<in> set a. c \<noteq> CHR ''{''" by blast
  have "CHR ''{'' \<notin> set b"
    by (rule not_ws_notin[OF b]) (simp add: is_json_ws_def)
  then have ob: "\<forall>c \<in> set b. c \<noteq> CHR ''{''" by blast
  have cb: "CHR ''}'' \<notin> set b"
    by (rule not_ws_notin[OF b]) (simp add: is_json_ws_def)
  have d1: "dropWhile (\<lambda>c. c \<noteq> CHR ''{'') (a @ z @ b) = dropWhile (\<lambda>c. c \<noteq> CHR ''{'') (z @ b)"
    using oa by (induction a) auto
  show ?thesis
  proof (cases "dropWhile (\<lambda>c. c \<noteq> CHR ''{'') z")
    case Nil
    then have "\<forall>c \<in> set z. c \<noteq> CHR ''{''" by (simp add: dropWhile_eq_Nil_conv)
    with ob have dz: "dropWhile (\<lambda>c. c \<noteq> CHR ''{'') (z @ b) = []"
      by (auto simp: dropWhile_eq_Nil_conv)
    have "re_search_braces (a @ z @ b) = None"
      unfolding re_search_braces_def d1 dz by simp
    moreover have "re_search_braces z = None"
      unfolding re_search_braces_def Nil by simp
    ultimately show ?thesis by simp
  next
    case (Cons c r)
    then have "dropWhile (\<lambda>c. c \<noteq> CHR ''{'') z \<noteq> []" by simp
    then have "\<exists>x \<in> set z. \<not> x \<noteq> CHR ''{''"
      by (simp add: dropWhile_eq_Nil_conv)
    then have d2: "dropWhile (\<lambda>c. c \<noteq> CHR ''{'') (z @ b) = c # (r @ b)"
      using Cons by (simp add: dropWhile_append1)
    have d3: "dropWhile (\<lambda>x. x \<noteq> CHR ''}'') (rev b @ rev r) = dropWhile (\<lambda>x. x \<noteq> CHR ''}'') (rev r)"
      using cb by (induction b rule: rev_induct) auto
    have "re_search_braces (a @ z @ b) =
            (if CHR ''}'' \<in> set r
             then Some (c # rev (dropWhile (\<lambda>x. x \<noteq> CHR ''}'') (rev r))) else None)"
      unfolding re_search_braces_def d1 d2 using cb d3 by simp
    moreover have "re_search_braces z =
            (if CHR ''}'' \<in> set r
             then Some (c # rev (dropWhile (\<lambda>x. x \<noteq> CHR ''}'') (rev r))) else None)"
      unfolding re_search_braces_def Cons by simp
    ultimately show ?thesis by simp
  qed
qed

lemma fenced_same_margins:
  assumes "ignores_json_ws loads"
    and "list_all is_json_ws (takeWhile py_isspace content)"
    and "list_all is_json_ws (takeWhile py_isspace (rev content))"
  shows "parse_response loads (fenced content) = parse_response loads content"
proof -
  from clean_response_fenced_margins[OF assms(2,3)] obtain a b where
    a: "list_all is_json_ws a" and b: "list_all is_json_ws b" and
    c: "clean_response (fenced content) = a @ clean_response content @ b"
    by blast
  have l: "\<And>s. loads (a @ s @ b) = loads s"
    using assms(1) a b by (simp add: ignores_json_ws_def)
  have "decode_response loads (a @ clean_response content @ b) =
          decode_response loads (clean_response content)"
    by (simp add: decode_response_def l re_search_braces_ws[OF a b] cong: option.case_cong)
  then show ?thesis by (simp add: parse_response_def c)
qed

lemma dropWhile_all: "list_all P a \<Longrightarrow> dropWhile P (a @ s) = dropWhile P s"
  by (induction a) auto

lemma strip_margins:
  assumes a: "list_all py_isspace a" and b: "list_all py_isspace b"
  shows "strip (a @ c @ b) = strip c"
proof -
  have d1: "dropWhile py_isspace (a @ c @ b) = dropWhile py_isspace (c @ b)"
    by (rule dropWhile_all[OF a])
  show ?thesis
  proof (cases "dropWhile py_isspace c = []")
    case True
    then have "list_all py_isspace c" by (simp add: dropWhile_eq_Nil_conv list_all_iff)
    then have "dropWhile py_isspace (c @ b) = dropWhile py_isspace b" by (rule dropWhile_all)
    also have "\<dots> = []" using b by (simp add: dropWhile_eq_Nil_conv list_all_iff)
    finally have e1: "dropWhile py_isspace (c @ b) = []" .
    show ?thesis unfolding strip_def d1 e1 True by simp
  next
    case False
    then have "\<exists>x \<in> set c. \<not> py_isspace x" by (simp add: dropWhile_eq_Nil_conv)
    then obtain x where "x \<in> set c" "\<not> py_isspace x" by blast
    then have d2: "dropWhile py_isspace (c @ b) = dropWhile py_isspace c @ b"
      by (rule dropWhile_append1)
    have "list_all py_isspace (rev b)" using b by (simp add: list_all_iff)
    then have "dropWhile py_isspace (rev b @ rev (dropWhile py_isspace c))
                 = dropWhile py_isspace (rev (dropWhile py_isspace c))"
      by (rule dropWhile_all)
    then show ?thesis by (simp add: strip_def d1 d2)
  qed
qed

lemma takeWhile_margin:
  assumes a: "list_all is_json_ws a" and l: "list_all is_json_ws (takeWhile py_isspace c)"
  shows "list_all is_json_ws (takeWhile py_isspace (a @ c))"
proof -
  have "set (takeWhile py_isspace (a @ c)) \<subseteq> set a \<union> set (takeWhile py_isspace c)"
    by (auto simp: takeWhile_append dest: set_takeWhileD)
  with a l show ?thesis by (auto simp: list_all_iff)
qed

lemma takeWhile_margin_right:
  assumes b: "list_all is_json_ws b" and l: "list_all is_json_ws (takeWhile py_isspace c)"
  shows "list_all is_json_ws (takeWhile py_isspace (c @ b))"
proof (cases "\<forall>x \<in> set c. py_isspace x")
  case True
  then have "takeWhile py_isspace c = c" by (simp add: takeWhile_eq_all_conv)
  with l have "list_all is_json_ws c" by simp
  moreover have "set (takeWhile py_isspace (c @ b)) \<subseteq> set c \<union> set b"
    by (auto dest: set_takeWhileD)
  ultimately show ?thesis using b by (auto simp: list_all_iff)
next
  case False
  then obtain x where "x \<in> set c" "\<not> py_isspace x" by blast
  then have "takeWhile py_isspace (c @ b) = takeWhile py_isspace c"
    by (rule takeWhile_append1)
  with l show ?thesis by simp
qed

section \<open>The claims\<close>

subsection \<open>C1: the result of a document in text mode\<close>

text \<open>
  C1 says that the result of every document processed in text mode holds \<open>filename\<close>,
  \<open>processing_mode\<close> equal to \<open>text\<close>, and the page count of the source. \<open>process_file\<close>
  reads the page count and then stores only the first two: for a PDF of two pages and the
  reply \<open>{"title": "T"}\<close> the result has the keys \<open>title\<close>, \<open>filename\<close> and
  \<open>processing_mode\<close> and no page count, while \<open>process_pdf\<close> of the prototype stores
  \<open>page_count = 2\<close> for the same document. In general the keys of a result in text mode
  are those of the reply, \<open>filename\<close> and \<open>processing_mode\<close>, as \<open>text_mode_result_keys\<close>
  shows.
\<close>

theorem text_mode_result_lacks_page_count:
  \<open>process_file json_loads
      \<lparr>getsize = None, upload_ok = False, generate_content = Text ''{"title": "T"}'',
       delete_ok = False, pdf_pages = Some [Some ''Hello '', Some ''world'']\<rparr> ''docs/paper.pdf'' True
     = (Inr [(''title'', JStr ''T''), (''filename'', JStr ''paper.pdf''),
             (''processing_mode'', JStr ''text'')], [OpenPdf, Generate])
   \<and> process_pdf json_loads
      \<lparr>getsize = None, upload_ok = False, generate_content = Text ''{"title": "T"}'',
       delete_ok = False, pdf_pages = Some [Some ''Hello '', Some ''world'']\<rparr> ''docs/paper.pdf''
     = (Inr [(''title'', JStr ''T''), (''filename'', JStr ''paper.pdf''),
             (''page_count'', JInt 2)], [OpenPdf, Generate])\<close>
  by code_simp

subsection \<open>C2: a failed deletion of the staged file\<close>

text \<open>
  C2, as amended: in file mode, when the file is within the size limit, the upload and
  the generation return normally and the deletion of the staged file raises,
  \<open>process_file\<close> gives up on the document with the upload warning after the four calls
  (the reply is dropped), and the loop of the run reports the document as failed, adds
  nothing to the results and goes on with the remaining documents.
\<close>

theorem failed_deletion_skips_document:
  assumes "\<not> text_mode a" and "getsize (doc w (opened_path (getcwd w) p)) = Some n"
    and "n \<le> 50 * 1024 * 1024"
    and "upload_ok (doc w (opened_path (getcwd w) p))"
    and "generate_content (doc w (opened_path (getcwd w) p)) \<noteq> GenerateRaises"
    and "\<not> delete_ok (doc w (opened_path (getcwd w) p))"
  shows "process_file loads (doc w (opened_path (getcwd w) p)) p (text_mode a) =
           (Inl UploadFailed, [GetSize, Upload, Generate, Delete])
     \<and> process_all loads a w (p # rest) =
         (Notice UploadFailed # Failed (basename p) # fst (process_all loads a w rest),
          fst (snd (process_all loads a w rest)),
          (p, opened_path (getcwd w) p, [GetSize, Upload, Generate, Delete])
            # snd (snd (process_all loads a w rest)))"
proof -
  have pf: "process_file loads (doc w (opened_path (getcwd w) p)) p (text_mode a) =
           (Inl UploadFailed, [GetSize, Upload, Generate, Delete])"
    using assms
    by (simp add: process_file_def GEMINI_MAX_FILE_SIZE_BYTES_def GEMINI_MAX_FILE_SIZE_MB_def)
  show ?thesis
    unfolding process_all_Cons pf by simp
qed

theorem failed_deletion_skips_document_witness:
  \<open>\<not> text_mode \<lparr>input_dir = ''/data'', recursive = False, text_mode = False, csv_format = False\<rparr>
   \<and> (1000 :: int) \<le> 50 * 1024 * 1024
   \<and> Text ''{"title": "T"}'' \<noteq> GenerateRaises
   \<and> process_file json_loads
        \<lparr>getsize = Some 1000, upload_ok = True, generate_content = Text ''{"title": "T"}'',
         delete_ok = False, pdf_pages = None\<rparr> ''paper.pdf'' False
      = (Inl UploadFailed, [GetSize, Upload, Generate, Delete])\<close>
proof -
  let ?a = \<open>\<lparr>input_dir = ''/data'', recursive = False, text_mode = False, csv_format = False\<rparr>\<close>
  let ?d = \<open>\<lparr>getsize = Some 1000, upload_ok = True, generate_content = Text ''{"title": "T"}'',
         delete_ok = False, pdf_pages = None\<rparr>\<close>
  let ?w = \<open>\<lparr>configured = True, isdir = True, getcwd = ''/home/user'', schema_file = None,
             listdir = [], walk = [], doc = (\<lambda>_. ?d), writable = True\<rparr>\<close>
  have h1: "\<not> text_mode ?a" by simp
  have h2: \<open>getsize (doc ?w (opened_path (getcwd ?w) ''paper.pdf'')) = Some 1000\<close> by simp
  have h3: "(1000 :: int) \<le> 50 * 1024 * 1024" by simp
  have h4: \<open>upload_ok (doc ?w (opened_path (getcwd ?w) ''paper.pdf''))\<close> by simp
  have h5: \<open>generate_content (doc ?w (opened_path (getcwd ?w) ''paper.pdf'')) \<noteq> GenerateRaises\<close>
    by simp
  have h6: \<open>\<not> delete_ok (doc ?w (opened_path (getcwd ?w) ''paper.pdf''))\<close> by simp
  from failed_deletion_skips_document[OF h1 h2 h3 h4 h5 h6, of json_loads "[]"] h3
  show ?thesis by simp
qed

text \<open>
  The claim as first stated (the result is still produced when the deletion fails) does
  not hold: the same document gives a result when the deletion succeeds and none when it
  fails.
\<close>

theorem failed_deletion_counterexample:
  \<open>\<not> (\<exists>result. fst (process_file json_loads
         \<lparr>getsize = Some 1000, upload_ok = True, generate_content = Text ''{"title": "T"}'',
          delete_ok = False, pdf_pages = None\<rparr> ''paper.pdf'' False) = Inr result)
   \<and> fst (process_file json_loads
         \<lparr>getsize = Some 1000, upload_ok = True, generate_content = Text ''{"title": "T"}'',
          delete_ok = True, pdf_pages = None\<rparr> ''paper.pdf'' False)
       = Inr [(''title'', JStr ''T''), (''filename'', JStr ''paper.pdf''),
              (''processing_mode'', JStr ''file'')]\<close>
proof (intro conjI)
  have \<open>fst (process_file json_loads
         \<lparr>getsize = Some 1000, upload_ok = True, generate_content = Text ''{"title": "T"}'',
          delete_ok = False, pdf_pages = None\<rparr> ''paper.pdf'' False) = Inl UploadFailed\<close>
    by (simp add: process_file_def GEMINI_MAX_FILE_SIZE_BYTES_def GEMINI_MAX_FILE_SIZE_MB_def)
  then show \<open>\<not> (\<exists>result. fst (process_file json_loads
         \<lparr>getsize = Some 1000, upload_ok = True, generate_content = Text ''{"title": "T"}'',
          delete_ok = False, pdf_pages = None\<rparr> ''paper.pdf'' False) = Inr result)\<close>
    by simp
next
  show \<open>fst (process_file json_loads
         \<lparr>getsize = Some 1000, upload_ok = True, generate_content = Text ''{"title": "T"}'',
          delete_ok = True, pdf_pages = None\<rparr> ''paper.pdf'' False)
       = Inr [(''title'', JStr ''T''), (''filename'', JStr ''paper.pdf''),
              (''processing_mode'', JStr ''file'')]\<close>
    by code_simp
qed

subsection \<open>C3: metadata take precedence\<close>

text \<open>
  C3: when the extracted fields are merged with the metadata, each key of the metadata
  holds the metadata's value afterwards and every other key keeps the value extracted;
  and every result \<open>process_file\<close> returns is such a merge of the fields parsed from the
  model's reply with the metadata of the document, so that its \<open>filename\<close> is the basename
  of the path processed and its \<open>processing_mode\<close> is the mode of the call, whatever
  \<open>filename\<close> or \<open>processing_mode\<close> the model's reply contained.
\<close>

theorem metadata_takes_precedence:
  "(distinct (keys metadata) \<longrightarrow>
      (\<forall>k. dict_get (dict_update extracted metadata) k =
            (case dict_get metadata k of Some v \<Rightarrow> Some v | None \<Rightarrow> dict_get extracted k)))
   \<and> (fst (process_file loads w file_path tm) = Inr result \<longrightarrow>
        (\<exists>reply fields.
            generate_content w = Text reply \<and> parse_response loads reply = Inr fields
            \<and> (\<forall>k. dict_get result k =
                  (if k = ''filename'' then Some (JStr (basename file_path))
                   else if k = ''processing_mode''
                     then Some (JStr (if tm then ''text'' else ''file''))
                   else dict_get fields k)))
        \<and> dict_get result ''filename'' = Some (JStr (basename file_path))
        \<and> dict_get result ''processing_mode'' = Some (JStr (if tm then ''text'' else ''file'')))"
proof (intro conjI impI allI)
  fix k assume "distinct (keys metadata)"
  then show "dict_get (dict_update extracted metadata) k =
            (case dict_get metadata k of Some v \<Rightarrow> Some v | None \<Rightarrow> dict_get extracted k)"
    by (rule dict_get_dict_update)
next
  assume "fst (process_file loads w file_path tm) = Inr result"
  from process_file_Inr[OF this] obtain reply fields where
    g: "generate_content w = Text reply" and pr: "parse_response loads reply = Inr fields" and
    r: "result = dict_update fields [(''filename'', JStr (basename file_path)),
                              (''processing_mode'', JStr (if tm then ''text'' else ''file''))]"
    by blast
  have "\<forall>k. dict_get result k =
                  (if k = ''filename'' then Some (JStr (basename file_path))
                   else if k = ''processing_mode''
                     then Some (JStr (if tm then ''text'' else ''file''))
                   else dict_get fields k)"
    unfolding r by (simp add: dict_update_Cons dict_update_Nil dict_get_dict_set)
  with g pr show "\<exists>reply fields.
            generate_content w = Text reply \<and> parse_response loads reply = Inr fields
            \<and> (\<forall>k. dict_get result k =
                  (if k = ''filename'' then Some (JStr (basename file_path))
                   else if k = ''processing_mode''
                     then Some (JStr (if tm then ''text'' else ''file''))
                   else dict_get fields k))"
    by blast
next
  assume "fst (process_file loads w file_path tm) = Inr result"
  from process_file_Inr[OF this] obtain d where
    r: "result = dict_update d [(''filename'', JStr (basename file_path)),
                              (''processing_mode'', JStr (if tm then ''text'' else ''file''))]"
    by blast
  show "dict_get result ''filename'' = Some (JStr (basename file_path))"
    unfolding r by (simp add: dict_update_Cons dict_update_Nil dict_get_dict_set)
next
  assume "fst (process_file loads w file_path tm) = Inr result"
  from process_file_Inr[OF this] obtain d where
    r: "result = dict_update d [(''filename'', JStr (basename file_path)),
                              (''processing_mode'', JStr (if tm then ''text'' else ''file''))]"
    by blast
  show "dict_get result ''processing_mode'' = Some (JStr (if tm then ''text'' else ''file''))"
    unfolding r by (simp add: dict_update_Cons dict_update_Nil dict_get_dict_set)
qed

theorem metadata_takes_precedence_witness:
  \<open>distinct (keys [(''filename'', JStr ''paper.pdf''), (''processing_mode'', JStr ''file'')])
   \<and> fst (process_file json_loads
         \<lparr>getsize = Some 1000, upload_ok = True,
          generate_content =
            Text ''{"filename": "guess.pdf", "title": "T", "processing_mode": "guess"}'',
          delete_ok = True, pdf_pages = None\<rparr> ''docs/paper.pdf'' False)
       = Inr [(''filename'', JStr ''paper.pdf''), (''title'', JStr ''T''),
              (''processing_mode'', JStr ''file'')]
   \<and> dict_get [(''filename'', JStr ''paper.pdf''), (''title'', JStr ''T''),
                (''processing_mode'', JStr ''file'')] ''filename''
       = Some (JStr (basename ''docs/paper.pdf''))
   \<and> dict_get [(''filename'', JStr ''paper.pdf''), (''title'', JStr ''T''),
                (''processing_mode'', JStr ''file'')] ''processing_mode''
       = Some (JStr ''file'')
   \<and> dict_get (dict_update [(''filename'', JStr ''guess.pdf''), (''title'', JStr ''T''),
                              (''processing_mode'', JStr ''guess'')]
                 [(''filename'', JStr ''paper.pdf''), (''processing_mode'', JStr ''file'')])
         ''filename'' = Some (JStr ''paper.pdf'')\<close>
proof -
  have d: \<open>distinct (keys [(''filename'', JStr ''paper.pdf''), (''processing_mode'', JStr ''file'')])\<close>
    by code_simp
  have e: \<open>fst (process_file json_loads
         \<lparr>getsize = Some 1000, upload_ok = True,
          generate_content =
            Text ''{"filename": "guess.pdf", "title": "T", "processing_mode": "guess"}'',
          delete_ok = True, pdf_pages = None\<rparr> ''docs/paper.pdf'' False)
       = Inr [(''filename'', JStr ''paper.pdf''), (''title'', JStr ''T''),
              (''processing_mode'', JStr ''file'')]\<close>
    by code_simp
  have g: \<open>dict_get [(''filename'', JStr ''paper.pdf''), (''processing_mode'', JStr ''file'')] ''filename''
            = Some (JStr ''paper.pdf'')\<close>
    by code_simp
  note t = metadata_takes_precedence[of
      \<open>[(''filename'', JStr ''paper.pdf''), (''processing_mode'', JStr ''file'')]\<close>
      \<open>[(''filename'', JStr ''guess.pdf''), (''title'', JStr ''T''),
                              (''processing_mode'', JStr ''guess'')]\<close>
      json_loads
      \<open>\<lparr>getsize = Some 1000, upload_ok = True,
          generate_content =
            Text ''{"filename": "guess.pdf", "title": "T", "processing_mode": "guess"}'',
          delete_ok = True, pdf_pages = None\<rparr>\<close>
      \<open>''docs/paper.pdf''\<close> False
      \<open>[(''filename'', JStr ''paper.pdf''), (''title'', JStr ''T''),
              (''processing_mode'', JStr ''file'')]\<close>]
  from t d e g show ?thesis by simp
qed

subsection \<open>C4: a response inside a markdown fence\<close>

text \<open>
  C4, as amended: let the content have only JSON whitespace (space, tab, line feed,
  carriage return) among the whitespace at its two ends that \<open>strip\<close> removes, and let
  it stand inside a \<open>```json\<close> ... \<open>```\<close> fence, possibly with more JSON whitespace between
  the markers and the content. Then, with every decoder that ignores JSON whitespace
  around its text as \<open>json.loads\<close> does, parsing the fenced response gives the same
  dictionary or the same failure as parsing the content.
\<close>

theorem fenced_response_parses_like_content:
  assumes "ignores_json_ws loads"
    and "list_all is_json_ws a" and "list_all is_json_ws b"
    and "list_all is_json_ws (takeWhile py_isspace content)"
    and "list_all is_json_ws (takeWhile py_isspace (rev content))"
  shows "parse_response loads (fenced (a @ content @ b)) = parse_response loads content"
proof -
  have l: "list_all is_json_ws (takeWhile py_isspace (a @ content @ b))"
    by (rule takeWhile_margin[OF assms(2) takeWhile_margin_right[OF assms(3,4)]])
  have rb: "list_all is_json_ws (rev b)" and ra: "list_all is_json_ws (rev a)"
    using assms(2,3) by (simp_all add: list_all_iff)
  have "list_all is_json_ws (takeWhile py_isspace (rev b @ rev content @ rev a))"
    by (rule takeWhile_margin[OF rb takeWhile_margin_right[OF ra assms(5)]])
  then have r: "list_all is_json_ws (takeWhile py_isspace (rev (a @ content @ b)))" by simp
  have "parse_response loads (fenced (a @ content @ b)) = parse_response loads (a @ content @ b)"
    by (rule fenced_same_margins[OF assms(1) l r])
  moreover have "strip (a @ content @ b) = strip content"
    using assms(2,3) by (intro strip_margins) (auto simp: list_all_iff json_ws_py_isspace)
  then have "parse_response loads (a @ content @ b) = parse_response loads content"
    by (simp add: parse_response_def clean_response_def)
  ultimately show ?thesis by simp
qed

theorem fenced_response_parses_like_content_witness:
  \<open>ignores_json_ws json_loads
   \<and> list_all is_json_ws ''\<newline>'' \<and> list_all is_json_ws '' \<newline>''
   \<and> list_all is_json_ws (takeWhile py_isspace ''{"a": "x"}'')
   \<and> list_all is_json_ws (takeWhile py_isspace (rev ''{"a": "x"}''))
   \<and> fenced (''\<newline>'' @ ''{"a": "x"}'' @ '' \<newline>'') = ''```json\<newline>{"a": "x"} \<newline>```''
   \<and> parse_response json_loads ''```json\<newline>{"a": "x"} \<newline>```'' = Inr [(''a'', JStr ''x'')]
   \<and> parse_response json_loads ''{"a": "x"}'' = Inr [(''a'', JStr ''x'')]\<close>
proof -
  have h1: \<open>list_all is_json_ws ''\<newline>''\<close> and h2: \<open>list_all is_json_ws '' \<newline>''\<close>
    by code_simp+
  have h3: \<open>list_all is_json_ws (takeWhile py_isspace ''{"a": "x"}'')\<close> by code_simp
  have h4: \<open>list_all is_json_ws (takeWhile py_isspace (rev ''{"a": "x"}''))\<close> by code_simp
  have f: \<open>fenced (''\<newline>'' @ ''{"a": "x"}'' @ '' \<newline>'') = ''```json\<newline>{"a": "x"} \<newline>```''\<close>
    by code_simp
  have e: \<open>parse_response json_loads ''{"a": "x"}'' = Inr [(''a'', JStr ''x'')]\<close> by code_simp
  from fenced_response_parses_like_content[OF json_loads_ignores_json_ws h1 h2 h3 h4] e f
    json_loads_ignores_json_ws h1 h2 h3 h4
  show ?thesis by (simp only: simp_thms)
qed

text \<open>
  The claim as first stated, for every content, does not hold: \<open>strip\<close> removes a form
  feed in front of the bare content \<open>[]\<close>, but inside the fence the form feed stays,
  the decoder refuses it and the text has no brace to fall back on.
\<close>

theorem fenced_response_counterexample:
  \<open>parse_response json_loads (fenced (CHR 0x0C # ''[]'')) = Inl NoJsonFound
   \<and> parse_response json_loads (CHR 0x0C # ''[]'') = Inr []\<close>
  by code_simp

subsection \<open>C5: a response that is a list\<close>

text \<open>
  C5: when the decoded response is a list, the parser goes on with its first element if
  there is one (which is the result when it is a dictionary, and refused otherwise) and
  with the empty dictionary if the list is empty; the response \<open>[{"a":1}]\<close> is parsed
  to \<open>{"a": 1}\<close> and the response \<open>[]\<close> to \<open>{}\<close>.
\<close>

theorem list_response_first_element:
  \<open>(decode_response loads (clean_response text) = Inr (JList xs) \<longrightarrow>
      parse_response loads text =
        (case xs of
           [] \<Rightarrow> Inr []
         | x # _ \<Rightarrow> (case x of JDict d \<Rightarrow> Inr d | _ \<Rightarrow> Inl InvalidDataType)))
   \<and> parse_response json_loads ''[{"a":1}]'' = Inr [(''a'', JInt 1)]
   \<and> parse_response json_loads ''[]'' = Inr []\<close>
proof (intro conjI impI)
  assume "decode_response loads (clean_response text) = Inr (JList xs)"
  then show "parse_response loads text =
        (case xs of
           [] \<Rightarrow> Inr []
         | x # _ \<Rightarrow> (case x of JDict d \<Rightarrow> Inr d | _ \<Rightarrow> Inl InvalidDataType))"
    by (simp add: parse_response_def unwrap_list_def split: list.splits json.splits)
next
  show \<open>parse_response json_loads ''[{"a":1}]'' = Inr [(''a'', JInt 1)]\<close> by code_simp
next
  show "parse_response json_loads ''[]'' = Inr []" by code_simp
qed

theorem list_response_first_element_witness:
  \<open>decode_response json_loads (clean_response ''[{"a":1}, {"b":2}]'')
      = Inr (JList [JDict [(''a'', JInt 1)], JDict [(''b'', JInt 2)]])
   \<and> parse_response json_loads ''[{"a":1}, {"b":2}]'' = Inr [(''a'', JInt 1)]\<close>
proof -
  have e: \<open>decode_response json_loads (clean_response ''[{"a":1}, {"b":2}]'')
      = Inr (JList [JDict [(''a'', JInt 1)], JDict [(''b'', JInt 2)]])\<close>
    by code_simp
  from list_response_first_element[of json_loads \<open>''[{"a":1}, {"b":2}]''\<close>
      \<open>[JDict [(''a'', JInt 1)], JDict [(''b'', JInt 2)]]\<close>] e
  show ?thesis by simp
qed

subsection \<open>C6: a file above the size limit\<close>

text \<open>
  C6: in file mode a document whose size exceeds 50 MB (50 * 1024 * 1024 bytes) makes
  \<open>process_file\<close> give up right after reading the size: nothing is uploaded, the model is
  not called and the PDF is not opened for text extraction; the loop of the run reports
  the document as failed and adds nothing to the results.
\<close>

theorem oversized_file_is_skipped:
  assumes "\<not> text_mode a" and "getsize (doc w (opened_path (getcwd w) p)) = Some n"
    and "n > 50 * 1024 * 1024"
  shows "process_file loads (doc w (opened_path (getcwd w) p)) p (text_mode a)
           = (Inl FileTooLarge, [GetSize])
     \<and> process_all loads a w (p # rest) =
         (Notice FileTooLarge # Failed (basename p) # fst (process_all loads a w rest),
          fst (snd (process_all loads a w rest)),
          (p, opened_path (getcwd w) p, [GetSize]) # snd (snd (process_all loads a w rest)))"
proof -
  have pf: "process_file loads (doc w (opened_path (getcwd w) p)) p (text_mode a)
              = (Inl FileTooLarge, [GetSize])"
    using assms
    by (simp add: process_file_def GEMINI_MAX_FILE_SIZE_BYTES_def GEMINI_MAX_FILE_SIZE_MB_def)
  show ?thesis
    unfolding process_all_Cons pf by simp
qed

theorem oversized_file_is_skipped_witness:
  \<open>\<not> text_mode \<lparr>input_dir = ''/data'', recursive = False, text_mode = False, csv_format = False\<rparr>
   \<and> getsize \<lparr>getsize = Some 60000000, upload_ok = True, generate_content = Text ''{}'',
              delete_ok = True, pdf_pages = Some [Some ''text'']\<rparr> = Some 60000000
   \<and> (60000000 :: int) > 50 * 1024 * 1024
   \<and> process_file json_loads
        \<lparr>getsize = Some 60000000, upload_ok = True, generate_content = Text ''{}'',
         delete_ok = True, pdf_pages = Some [Some ''text'']\<rparr> ''big.pdf'' False
      = (Inl FileTooLarge, [GetSize])\<close>
proof -
  let ?a = \<open>\<lparr>input_dir = ''/data'', recursive = False, text_mode = False, csv_format = False\<rparr>\<close>
  let ?d = \<open>\<lparr>getsize = Some 60000000, upload_ok = True, generate_content = Text ''{}'',
              delete_ok = True, pdf_pages = Some [Some ''text'']\<rparr>\<close>
  let ?w = \<open>\<lparr>configured = True, isdir = True, getcwd = ''/home/user'', schema_file = None,
             listdir = [], walk = [], doc = (\<lambda>_. ?d), writable = True\<rparr>\<close>
  have h1: "\<not> text_mode ?a" by simp
  have h2: \<open>getsize (doc ?w (opened_path (getcwd ?w) ''big.pdf'')) = Some 60000000\<close> by simp
  have h3: "(60000000 :: int) > 50 * 1024 * 1024" by simp
  from oversized_file_is_skipped[OF h1 h2 h3, of json_loads "[]"] h3
  show ?thesis by simp
qed

subsection \<open>C7: the columns of the CSV output\<close>

text \<open>
  C7: for a result set that is not empty, \<open>save_to_csv\<close> produces a table whose header is
  the union of the keys of all flattened results in sorted order, without repetition, and
  one row per result, with the header's columns, holding the result's own value in each
  column it has and the empty string in every other column; the results \<open>{"x": 1}\<close> and
  \<open>{"y": 2}\<close> give the header \<open>x, y\<close>.
\<close>

theorem csv_header_sorted_union:
  "(data \<noteq> [] \<longrightarrow>
     (\<exists>t. save_to_csv str_of data = Some t
        \<and> header t = sorted_list_of_set
             (\<Union>item \<in> set data. set (keys (flatten_json_to_csv str_of item [] ''_'')))
        \<and> sorted (header t) \<and> distinct (header t)
        \<and> length (rows t) = length data
        \<and> (\<forall>i < length data.
              keys (rows t ! i) = header t
              \<and> (\<forall>col \<in> set (header t).
                    dict_get (rows t ! i) col =
                      (case dict_get (flatten_json_to_csv str_of (data ! i) [] ''_'') col of
                         Some v \<Rightarrow> Some v
                       | None \<Rightarrow> Some (JStr []))))))
   \<and> save_to_csv str_of [[(''x'', JInt 1)], [(''y'', JInt 2)]] =
       Some \<lparr>header = [''x'', ''y''],
             rows = [[(''x'', JInt 1), (''y'', JStr [])], [(''x'', JStr []), (''y'', JInt 2)]]\<rparr>"
proof (intro conjI impI)
  assume ne: "data \<noteq> []"
  let ?cols = "sorted_list_of_set (\<Union>item \<in> set data. set (keys (flatten_json_to_csv str_of item [] ''_'')))"
  let ?t = "\<lparr>header = ?cols,
           rows = map (\<lambda>item. map (\<lambda>col. (col, case dict_get (flatten_json_to_csv str_of item [] ''_'') col of
                                                          Some v \<Rightarrow> v | None \<Rightarrow> JStr [])) ?cols) data\<rparr>"
  have s: "save_to_csv str_of data = Some ?t" by (rule save_to_csv_Some[OF ne])
  have rows_ok: "\<forall>i < length data.
              keys (rows ?t ! i) = header ?t
              \<and> (\<forall>col \<in> set (header ?t).
                    dict_get (rows ?t ! i) col =
                      (case dict_get (flatten_json_to_csv str_of (data ! i) [] ''_'') col of
                         Some v \<Rightarrow> Some v
                       | None \<Rightarrow> Some (JStr [])))"
    by (auto simp: keys_row dict_get_row simp del: flatten_json_to_csv.simps split: option.splits)
  show "\<exists>t. save_to_csv str_of data = Some t
        \<and> header t = ?cols
        \<and> sorted (header t) \<and> distinct (header t)
        \<and> length (rows t) = length data
        \<and> (\<forall>i < length data.
              keys (rows t ! i) = header t
              \<and> (\<forall>col \<in> set (header t).
                    dict_get (rows t ! i) col =
                      (case dict_get (flatten_json_to_csv str_of (data ! i) [] ''_'') col of
                         Some v \<Rightarrow> Some v
                       | None \<Rightarrow> Some (JStr []))))"
    apply (rule exI[of _ ?t])
    using s rows_ok by simp
next
  have x: "flatten_json_to_csv str_of [(''x'', JInt 1)] [] ''_'' = [(''x'', JInt 1)]"
    by (simp add: dict_of_items_def dict_update_def dict_set_def)
  have y: "flatten_json_to_csv str_of [(''y'', JInt 2)] [] ''_'' = [(''y'', JInt 2)]"
    by (simp add: dict_of_items_def dict_update_def dict_set_def)
  have cols: "sorted_list_of_set {''x'', ''y''} = [''x'', ''y'']"
    by code_simp
  show "save_to_csv str_of [[(''x'', JInt 1)], [(''y'', JInt 2)]] =
       Some \<lparr>header = [''x'', ''y''],
             rows = [[(''x'', JInt 1), (''y'', JStr [])], [(''x'', JStr []), (''y'', JInt 2)]]\<rparr>"
    unfolding save_to_csv_def Let_def list.map x y
    by (simp add: keys_def cols dict_get_def Un_commute insert_commute)
qed

theorem csv_header_sorted_union_witness:
  \<open>[[(''x'', JInt 1)], [(''y'', JInt 2)]] \<noteq> ([] :: dict list)
   \<and> (\<exists>t. save_to_csv py_str [[(''x'', JInt 1)], [(''y'', JInt 2)]] = Some t
         \<and> header t = [''x'', ''y'']
         \<and> rows t = [[(''x'', JInt 1), (''y'', JStr [])], [(''x'', JStr []), (''y'', JInt 2)]])\<close>
  using csv_header_sorted_union[of \<open>[[(''x'', JInt 1)], [(''y'', JInt 2)]]\<close> py_str]
  by simp

subsection \<open>C8: a schema without fields\<close>

text \<open>
  C8 says that a run whose schema has no \<open>fields\<close> entry, or an empty one, fails with the
  empty-schema error before any document is processed. For the schema \<open>{}\<close> the run
  stops before any document is processed but prints no error at all: the empty
  dictionary is taken for a schema that could not be loaded. A schema with some other
  entry and no \<open>fields\<close> gets the error, as \<open>missing_fields_stops_run\<close> shows in general.
\<close>

theorem empty_mapping_schema_stops_silently:
  \<open>main json_loads str_of a (w\<lparr>configured := True, isdir := True, schema_file := Some ''{}''\<rparr>)
     = \<lparr>console = [Banner], processed = [], written = None\<rparr>
   \<and> main json_loads str_of a
       (w\<lparr>configured := True, isdir := True, schema_file := Some ''{"additional_context": "x"}''\<rparr>)
     = \<lparr>console = [Banner, NoFieldsError], processed = [], written = None\<rparr>\<close>
proof -
  have e: \<open>json_loads ''{}'' = Some (JDict [])\<close> by code_simp
  have c: \<open>json_loads ''{"additional_context": "x"}'' = Some (JDict [(''additional_context'', JStr ''x'')])\<close>
    by code_simp
  show ?thesis
    by (simp add: main_def load_extraction_schema_def e c dict_get_def)
qed

subsection \<open>C9: the paths handed to the processing\<close>

text \<open>
  C9, as amended: in a run that gets as far as the loop, without \<open>--recursive\<close> the calls
  of \<open>process_file\<close> are one for each PDF name that \<open>os.listdir\<close> returned, in order, with
  the bare name as the path, not joined with the input directory; with \<open>--recursive\<close> the
  path is the name joined with the directory \<open>os.walk\<close> found it in. Each call begins by
  reading the file its path names from the current working directory. So for a listed
  name the file read is the one of that name in the working directory: it is not the
  file listed whenever the input directory is not the working directory, and it does
  not lie under the input directory whenever the working directory is neither the input
  directory nor under it (directories compared as they are written, a relative input
  directory taken from the working directory).
\<close>

theorem bare_names_are_opened_from_cwd:
  assumes "starts_processing loads w" and "prefix ''/'' (getcwd w)"
  shows
  "(\<not> recursive a \<longrightarrow>
      processed (main loads str_of a w) =
        map (\<lambda>p. (p, opened_path (getcwd w) p,
                  snd (process_file loads (doc w (opened_path (getcwd w) p)) p (text_mode a))))
          (filter is_pdf (listdir w)))
   \<and> (recursive a \<longrightarrow>
        processed (main loads str_of a w) =
          map (\<lambda>p. (p, opened_path (getcwd w) p,
                    snd (process_file loads (doc w (opened_path (getcwd w) p)) p (text_mode a))))
            (concat (map (\<lambda>(root, dirs, files). map (os_path_join root) (filter is_pdf files))
                       (walk w))))
   \<and> (\<not> recursive a \<and> f \<in> set (listdir w) \<and> is_pdf f \<and> CHR ''/'' \<notin> set f \<longrightarrow>
        (\<exists>more. (f, os_path_join (getcwd w) [] @ f,
                  (if text_mode a then OpenPdf else GetSize) # more)
                 \<in> set (processed (main loads str_of a w)))
        \<and> (os_path_join (getcwd w) [] \<noteq> os_path_join (opened_path (getcwd w) (input_dir a)) []
             \<longrightarrow> os_path_join (getcwd w) [] @ f
                    \<noteq> os_path_join (opened_path (getcwd w) (input_dir a)) f)
        \<and> (\<not> prefix (os_path_join (opened_path (getcwd w) (input_dir a)) [])
                     (os_path_join (getcwd w) [])
             \<longrightarrow> \<not> under (opened_path (getcwd w) (input_dir a))
                         (os_path_join (getcwd w) [] @ f)))"
proof -
  let ?call = "\<lambda>p. (p, opened_path (getcwd w) p,
                  snd (process_file loads (doc w (opened_path (getcwd w) p)) p (text_mode a)))"
  let ?D = "opened_path (getcwd w) (input_dir a)"
  have pm: "processed (main loads str_of a w) = map ?call (pdf_files a w)"
    unfolding processed_main[OF assms(1)] calls_of_process_all ..
  have c1: "\<not> recursive a \<longrightarrow> processed (main loads str_of a w) = map ?call (filter is_pdf (listdir w))"
    unfolding pm by (simp add: pdf_files_def)
  have c2: "recursive a \<longrightarrow> processed (main loads str_of a w) =
          map ?call (concat (map (\<lambda>(root, dirs, files). map (os_path_join root) (filter is_pdf files))
                       (walk w)))"
    unfolding pm by (simp add: pdf_files_def)
  have c3: "\<not> recursive a \<and> f \<in> set (listdir w) \<and> is_pdf f \<and> CHR ''/'' \<notin> set f \<longrightarrow>
        (\<exists>more. (f, os_path_join (getcwd w) [] @ f,
                  (if text_mode a then OpenPdf else GetSize) # more)
                 \<in> set (processed (main loads str_of a w)))
        \<and> (os_path_join (getcwd w) [] \<noteq> os_path_join ?D []
             \<longrightarrow> os_path_join (getcwd w) [] @ f \<noteq> os_path_join ?D f)
        \<and> (\<not> prefix (os_path_join ?D []) (os_path_join (getcwd w) [])
             \<longrightarrow> \<not> under ?D (os_path_join (getcwd w) [] @ f))"
  proof (intro impI)
    assume h: "\<not> recursive a \<and> f \<in> set (listdir w) \<and> is_pdf f \<and> CHR ''/'' \<notin> set f"
    then have rel: "\<not> prefix ''/'' f" by (simp add: bare_name_relative)
    have op: "opened_path (getcwd w) f = os_path_join (getcwd w) [] @ f"
      unfolding opened_path_def by (rule os_path_join_dir[OF rel])
    from h have "f \<in> set (filter is_pdf (listdir w))" by simp
    then have "?call f \<in> set (processed (main loads str_of a w))"
      using c1 h by simp
    moreover obtain more where
      "snd (process_file loads (doc w (opened_path (getcwd w) f)) f (text_mode a))
         = (if text_mode a then OpenPdf else GetSize) # more"
      using process_file_first_call by blast
    ultimately have p1: "\<exists>more. (f, os_path_join (getcwd w) [] @ f,
                  (if text_mode a then OpenPdf else GetSize) # more)
                 \<in> set (processed (main loads str_of a w))"
      unfolding op by auto
    have lj: "os_path_join ?D f = os_path_join ?D [] @ f" by (rule os_path_join_dir[OF rel])
    have p2: "os_path_join (getcwd w) [] \<noteq> os_path_join ?D []
             \<longrightarrow> os_path_join (getcwd w) [] @ f \<noteq> os_path_join ?D f"
      unfolding lj by simp
    have dne: "?D \<noteq> []"
      unfolding opened_path_def by (rule os_path_join_absolute[OF assms(2)])
    have sl: "suffix ''/'' (os_path_join ?D [])" by (rule os_path_join_dir_slash[OF dne])
    then have ne: "os_path_join ?D [] \<noteq> []" and la: "last (os_path_join ?D []) = CHR ''/''"
      by (auto simp: suffix_def)
    from la h have "last (os_path_join ?D []) \<notin> set f" by simp
    from prefix_append_last[OF ne this, of "os_path_join (getcwd w) []"]
    have p3: "\<not> prefix (os_path_join ?D []) (os_path_join (getcwd w) [])
             \<longrightarrow> \<not> under ?D (os_path_join (getcwd w) [] @ f)"
      by (simp add: under_def)
    from p1 p2 p3 show "(\<exists>more. (f, os_path_join (getcwd w) [] @ f,
                  (if text_mode a then OpenPdf else GetSize) # more)
                 \<in> set (processed (main loads str_of a w)))
        \<and> (os_path_join (getcwd w) [] \<noteq> os_path_join ?D []
             \<longrightarrow> os_path_join (getcwd w) [] @ f \<noteq> os_path_join ?D f)
        \<and> (\<not> prefix (os_path_join ?D []) (os_path_join (getcwd w) [])
             \<longrightarrow> \<not> under ?D (os_path_join (getcwd w) [] @ f))"
      by blast
  qed
  from c1 c2 c3 show ?thesis by blast
qed

theorem bare_names_are_opened_from_cwd_witness:
  \<open>starts_processing json_loads
      \<lparr>configured = True, isdir = True, getcwd = ''/home/user'',
       schema_file = Some ''{"fields": [{"name": "title"}]}'',
       listdir = [''a.pdf'', ''notes.txt''], walk = [],
       doc = (\<lambda>_. \<lparr>getsize = None, upload_ok = False, generate_content = GenerateRaises,
                     delete_ok = False, pdf_pages = None\<rparr>),
       writable = True\<rparr>
   \<and> prefix ''/'' ''/home/user''
   \<and> processed (main json_loads py_str
         \<lparr>input_dir = ''docs'', recursive = False, text_mode = False, csv_format = False\<rparr>
         \<lparr>configured = True, isdir = True, getcwd = ''/home/user'',
          schema_file = Some ''{"fields": [{"name": "title"}]}'',
          listdir = [''a.pdf'', ''notes.txt''], walk = [],
          doc = (\<lambda>_. \<lparr>getsize = None, upload_ok = False, generate_content = GenerateRaises,
                        delete_ok = False, pdf_pages = None\<rparr>),
          writable = True\<rparr>) = [(''a.pdf'', ''/home/user/a.pdf'', [GetSize])]
   \<and> is_pdf ''a.pdf'' \<and> CHR ''/'' \<notin> set ''a.pdf''
   \<and> opened_path ''/home/user'' ''docs'' = ''/home/user/docs''
   \<and> os_path_join ''/home/user'' [] = ''/home/user/''
   \<and> os_path_join ''/home/user/docs'' [] = ''/home/user/docs/''
   \<and> \<not> prefix ''/home/user/docs/'' ''/home/user/''
   \<and> ''/home/user/a.pdf'' \<noteq> os_path_join ''/home/user/docs'' ''a.pdf''
   \<and> \<not> under ''/home/user/docs'' ''/home/user/a.pdf''\<close>
proof -
  let ?a = \<open>\<lparr>input_dir = ''docs'', recursive = False, text_mode = False, csv_format = False\<rparr>\<close>
  let ?w = \<open>\<lparr>configured = True, isdir = True, getcwd = ''/home/user'',
          schema_file = Some ''{"fields": [{"name": "title"}]}'',
          listdir = [''a.pdf'', ''notes.txt''], walk = [],
          doc = (\<lambda>_. \<lparr>getsize = None, upload_ok = False, generate_content = GenerateRaises,
                        delete_ok = False, pdf_pages = None\<rparr>),
          writable = True\<rparr>\<close>
  have h1: \<open>starts_processing json_loads ?w\<close> by code_simp
  have h2: \<open>prefix ''/'' (getcwd ?w)\<close> by simp
  have e: \<open>map (\<lambda>p. (p, opened_path (getcwd ?w) p,
                  snd (process_file json_loads (doc ?w (opened_path (getcwd ?w) p)) p (text_mode ?a))))
             (filter is_pdf (listdir ?w)) = [(''a.pdf'', ''/home/user/a.pdf'', [GetSize])]\<close>
    by code_simp
  have d: \<open>opened_path (getcwd ?w) (input_dir ?a) = ''/home/user/docs''\<close> by code_simp
  have c: \<open>os_path_join (getcwd ?w) [] = ''/home/user/''\<close> by code_simp
  have dd: \<open>os_path_join ''/home/user/docs'' [] = ''/home/user/docs/''\<close> by code_simp
  have h3: \<open>\<not> recursive ?a \<and> ''a.pdf'' \<in> set (listdir ?w) \<and> is_pdf ''a.pdf''
              \<and> CHR ''/'' \<notin> set ''a.pdf''\<close>
    by code_simp
  have h4: \<open>\<not> prefix ''/home/user/docs/'' ''/home/user/''\<close> by code_simp
  note t = bare_names_are_opened_from_cwd[OF h1 h2, of ?a py_str \<open>''a.pdf''\<close>]
  from t e have p: \<open>processed (main json_loads py_str ?a ?w)
                       = [(''a.pdf'', ''/home/user/a.pdf'', [GetSize])]\<close>
    by simp
  from t h3 h4 have u: \<open>\<not> under ''/home/user/docs'' ''/home/user/a.pdf''\<close>
    and n: \<open>''/home/user/a.pdf'' \<noteq> os_path_join ''/home/user/docs'' ''a.pdf''\<close>
    unfolding d c dd by simp_all
  from h1 p h3 h4 d c dd u n show ?thesis by simp
qed

text \<open>
  The claim as first stated, that for every input directory other than the working
  directory the files opened are not under the input directory, does not hold: run
  from \<open>/data/sub\<close> with the input directory \<open>/data\<close>, the listed name \<open>a.pdf\<close> is handed
  over bare and the file read is \<open>/data/sub/a.pdf\<close>, which lies under \<open>/data\<close>.
\<close>

theorem opened_file_under_input_directory_counterexample:
  \<open>input_dir \<lparr>input_dir = ''/data'', recursive = False, text_mode = False, csv_format = False\<rparr>
     \<noteq> getcwd
         \<lparr>configured = True, isdir = True, getcwd = ''/data/sub'',
          schema_file = Some ''{"fields": [{"name": "title"}]}'',
          listdir = [''a.pdf''], walk = [],
          doc = (\<lambda>_. \<lparr>getsize = None, upload_ok = False, generate_content = GenerateRaises,
                        delete_ok = False, pdf_pages = None\<rparr>),
          writable = True\<rparr>
   \<and> processed (main json_loads py_str
         \<lparr>input_dir = ''/data'', recursive = False, text_mode = False, csv_format = False\<rparr>
         \<lparr>configured = True, isdir = True, getcwd = ''/data/sub'',
          schema_file = Some ''{"fields": [{"name": "title"}]}'',
          listdir = [''a.pdf''], walk = [],
          doc = (\<lambda>_. \<lparr>getsize = None, upload_ok = False, generate_content = GenerateRaises,
                        delete_ok = False, pdf_pages = None\<rparr>),
          writable = True\<rparr>) = [(''a.pdf'', ''/data/sub/a.pdf'', [GetSize])]
   \<and> under ''/data'' ''/data/sub/a.pdf''\<close>
proof (intro conjI)
  show \<open>input_dir \<lparr>input_dir = ''/data'', recursive = False, text_mode = False, csv_format = False\<rparr>
     \<noteq> getcwd
         \<lparr>configured = True, isdir = True, getcwd = ''/data/sub'',
          schema_file = Some ''{"fields": [{"name": "title"}]}'',
          listdir = [''a.pdf''], walk = [],
          doc = (\<lambda>_. \<lparr>getsize = None, upload_ok = False, generate_content = GenerateRaises,
                        delete_ok = False, pdf_pages = None\<rparr>),
          writable = True\<rparr>\<close>
    by simp
next
  show \<open>processed (main json_loads py_str
         \<lparr>input_dir = ''/data'', recursive = False, text_mode = False, csv_format = False\<rparr>
         \<lparr>configured = True, isdir = True, getcwd = ''/data/sub'',
          schema_file = Some ''{"fields": [{"name": "title"}]}'',
          listdir = [''a.pdf''], walk = [],
          doc = (\<lambda>_. \<lparr>getsize = None, upload_ok = False, generate_content = GenerateRaises,
                        delete_ok = False, pdf_pages = None\<rparr>),
          writable = True\<rparr>) = [(''a.pdf'', ''/data/sub/a.pdf'', [GetSize])]\<close>
    by code_simp
next
  show \<open>under ''/data'' ''/data/sub/a.pdf''\<close> by code_simp
qed

subsection \<open>C10: flattening twice\<close>

text \<open>
  C10: flattening a flattened dictionary gives it back; equivalently, flattening is the
  identity on every dictionary whose values are neither dictionaries nor lists.
\<close>

theorem flatten_is_idempotent:
  "flatten_json_to_csv str_of (flatten_json_to_csv str_of d p sep) [] sep
     = flatten_json_to_csv str_of d p sep
   \<and> (distinct (keys d) \<and> is_flat d \<longrightarrow> flatten_json_to_csv str_of d [] sep = d)"
  using flatten_result(1)[of str_of d p sep] flatten_flat_id by blast

theorem flatten_is_idempotent_witness:
  \<open>flatten_json_to_csv py_str
       [(''a'', JDict [(''b'', JInt 1)]), (''c'', JList [JInt 1, JInt 2])] [] ''_''
     = [(''a_b'', JInt 1), (''c'', JStr ''1; 2'')]
   \<and> distinct (keys [(''a_b'', JInt 1), (''c'', JStr ''1; 2'')])
   \<and> is_flat [(''a_b'', JInt 1), (''c'', JStr ''1; 2'')]
   \<and> flatten_json_to_csv py_str [(''a_b'', JInt 1), (''c'', JStr ''1; 2'')] [] ''_''
     = [(''a_b'', JInt 1), (''c'', JStr ''1; 2'')]\<close>
proof -
  have e: \<open>flatten_json_to_csv py_str
       [(''a'', JDict [(''b'', JInt 1)]), (''c'', JList [JInt 1, JInt 2])] [] ''_''
     = [(''a_b'', JInt 1), (''c'', JStr ''1; 2'')]\<close>
    by code_simp
  have h: \<open>distinct (keys [(''a_b'', JInt 1), (''c'', JStr ''1; 2'')])\<close>
      \<open>is_flat [(''a_b'', JInt 1), (''c'', JStr ''1; 2'')]\<close>
    by code_simp+
  from flatten_is_idempotent[of py_str \<open>[(''a_b'', JInt 1), (''c'', JStr ''1; 2'')]\<close> "[]" \<open>''_''\<close>]
    e h
  show ?thesis by blast
qed


end
